theory Spec2Isabelle
  imports Main
begin

section \<open>Text\<close>

text \<open>
  A Python \<open>str\<close> is modelled as a \<^typ>\<open>string\<close>. One \<^typ>\<open>char\<close> stands for the code
  point of the same number, so the model covers texts over U+0000..U+00FF; this range holds
  every character the source names in its patterns, tokens and messages. The character
  classes below are Python's (\<open>str.isspace\<close>, \<open>str.isalnum\<close>, \<open>str.isdecimal\<close>,
  \<open>str.lower\<close>, \<open>str.upper\<close>) on that range.
\<close>

definition code :: "char \<Rightarrow> nat" where
  "code c = of_char c"

definition isspace :: "char \<Rightarrow> bool" where
  "isspace c = (let n = code c in
     (9 \<le> n \<and> n \<le> 13) \<or> (28 \<le> n \<and> n \<le> 32) \<or> n = 133 \<or> n = 160)"

definition isdecimal :: "char \<Rightarrow> bool" where
  "isdecimal c = (let n = code c in 48 \<le> n \<and> n \<le> 57)"

definition isalnum :: "char \<Rightarrow> bool" where
  "isalnum c = (let n = code c in
     (48 \<le> n \<and> n \<le> 57) \<or> (65 \<le> n \<and> n \<le> 90) \<or> (97 \<le> n \<and> n \<le> 122) \<or>
     n = 170 \<or> n = 178 \<or> n = 179 \<or> n = 181 \<or> n = 185 \<or> n = 186 \<or>
     (188 \<le> n \<and> n \<le> 190) \<or> (192 \<le> n \<and> n \<le> 214) \<or> (216 \<le> n \<and> n \<le> 246) \<or>
     (248 \<le> n \<and> n \<le> 255))"

definition lower :: "char \<Rightarrow> char" where
  "lower c = (let n = code c in
     if (65 \<le> n \<and> n \<le> 90) \<or> (192 \<le> n \<and> n \<le> 222 \<and> n \<noteq> 215)
     then char_of (n + 32) else c)"

definition upper :: "char \<Rightarrow> char" where
  "upper c = (let n = code c in
     if (97 \<le> n \<and> n \<le> 122) \<or> (224 \<le> n \<and> n \<le> 254 \<and> n \<noteq> 247)
     then char_of (n - 32) else c)"

definition in_range :: "char \<Rightarrow> char \<Rightarrow> char \<Rightarrow> bool" where
  "in_range lo hi c = (code lo \<le> code c \<and> code c \<le> code hi)"

definition dquote :: char where
  "dquote = CHR 0x22"

definition squote :: char where
  "squote = CHR 0x27"

definition newline :: char where
  "newline = CHR 0x0A"

text \<open>\<open>s.strip()\<close>: leading and trailing whitespace removed.\<close>

definition strip :: "string \<Rightarrow> string" where
  "strip s = rev (dropWhile isspace (rev (dropWhile isspace s)))"

text \<open>\<open>s.split()\<close>: the maximal runs of non-whitespace characters, in order.\<close>

fun split_acc :: "string \<Rightarrow> string \<Rightarrow> string list" where
  "split_acc cur [] = (if cur = [] then [] else [cur])"
| "split_acc cur (c # cs) =
     (if isspace c then (if cur = [] then split_acc [] cs else cur # split_acc [] cs)
      else split_acc (cur @ [c]) cs)"

definition split :: "string \<Rightarrow> string list" where
  "split s = split_acc [] s"

text \<open>\<open>s.split(sep)\<close> for a one-character separator: empty segments are kept.\<close>

fun split_sep_acc :: "char \<Rightarrow> string \<Rightarrow> string \<Rightarrow> string list" where
  "split_sep_acc sep cur [] = [cur]"
| "split_sep_acc sep cur (c # cs) =
     (if c = sep then cur # split_sep_acc sep [] cs else split_sep_acc sep (cur @ [c]) cs)"

definition split_sep :: "char \<Rightarrow> string \<Rightarrow> string list" where
  "split_sep sep s = split_sep_acc sep [] s"

text \<open>\<open>sep.join(parts)\<close> for a one-character separator.\<close>

fun join :: "char \<Rightarrow> string list \<Rightarrow> string" where
  "join sep [] = []"
| "join sep [p] = p"
| "join sep (p # q # ps) = p @ sep # join sep (q # ps)"

definition startswith :: "string \<Rightarrow> char \<Rightarrow> bool" where
  "startswith s c = (case s of [] \<Rightarrow> False | x # _ \<Rightarrow> x = c)"

definition endswith :: "string \<Rightarrow> char \<Rightarrow> bool" where
  "endswith s c = (case rev s of [] \<Rightarrow> False | x # _ \<Rightarrow> x = c)"

text \<open>The slice \<open>s[1:-1]\<close>.\<close>

definition slice_1_m1 :: "string \<Rightarrow> string" where
  "slice_1_m1 s = butlast (tl s)"

text \<open>\<open>sub in s\<close>: substring test.\<close>

fun str_in :: "string \<Rightarrow> string \<Rightarrow> bool" where
  "str_in sub [] = (sub = [])"
| "str_in sub (c # cs) = (take (length sub) (c # cs) = sub \<or> str_in sub cs)"

text \<open>\<open>template.format(x)\<close> for a template with one \<open>{}\<close> field and no other brace.\<close>

fun format1 :: "string \<Rightarrow> string \<Rightarrow> string" where
  "format1 (a # b # cs) x =
     (if a = CHR ''{'' \<and> b = CHR ''}'' then x @ cs else a # format1 (b # cs) x)"
| "format1 cs x = cs"

section \<open>Regular expressions\<close>

text \<open>
  The fragment of Python's \<open>re\<close> that \<open>anonymiser_texte\<close> uses, with the library's
  backtracking semantics: alternatives are tried left to right, repetitions are greedy, and
  the first way to match wins. \<open>Bnd\<close> is \<open>\b\<close>, \<open>Rep lo hi P\<close> repeats a character class
  between \<open>lo\<close> and \<open>hi\<close> times (\<open>None\<close>: no upper bound), \<open>Opt\<close> is \<open>(?:...)?\<close> and
  \<open>Grp n\<close> is the n-th capturing group. The flag \<open>ic\<close> is \<open>re.IGNORECASE\<close>.
\<close>

datatype regex =
    Bnd
  | Lit char
  | Cls "char \<Rightarrow> bool"
  | Rep nat "nat option" "char \<Rightarrow> bool"
  | Cat regex regex
  | Alt regex regex
  | Opt regex
  | Grp nat regex

text \<open>A position in the subject: the character before it (if any) and the text after it.\<close>

type_synonym pos = "char option \<times> string"

type_synonym groups = "(nat \<times> string) list"

text \<open>\<open>\w\<close>: alphanumeric or underscore.\<close>

definition isword :: "char \<Rightarrow> bool" where
  "isword c = (isalnum c \<or> c = CHR ''_'')"

definition at_boundary :: "pos \<Rightarrow> bool" where
  "at_boundary p = (case p of (prev, rest) \<Rightarrow>
     (case prev of None \<Rightarrow> False | Some c \<Rightarrow> isword c) \<noteq>
     (case rest of [] \<Rightarrow> False | c # _ \<Rightarrow> isword c))"

definition lit_eq :: "bool \<Rightarrow> char \<Rightarrow> char \<Rightarrow> bool" where
  "lit_eq ic x c = (if ic then lower c = lower x else c = x)"

definition in_cls :: "bool \<Rightarrow> (char \<Rightarrow> bool) \<Rightarrow> char \<Rightarrow> bool" where
  "in_cls ic P c = (if ic then P (lower c) \<or> P (upper c) else P c)"

fun rep :: "(char \<Rightarrow> bool) \<Rightarrow> nat \<Rightarrow> nat option \<Rightarrow> pos \<Rightarrow> (pos \<Rightarrow> 'r option) \<Rightarrow> 'r option" where
  "rep P lo hi (prev, []) k = (if lo = 0 then k (prev, []) else None)"
| "rep P lo hi (prev, c # cs) k =
     (if P c \<and> hi \<noteq> Some 0 then
        (case rep P (lo - 1) (map_option (\<lambda>h. h - 1) hi) (Some c, cs) k of
           Some r \<Rightarrow> Some r
         | None \<Rightarrow> if lo = 0 then k (prev, c # cs) else None)
      else if lo = 0 then k (prev, c # cs) else None)"

fun m :: "bool \<Rightarrow> regex \<Rightarrow> pos \<Rightarrow> groups \<Rightarrow> (pos \<Rightarrow> groups \<Rightarrow> 'r option) \<Rightarrow> 'r option" where
  "m ic Bnd p g k = (if at_boundary p then k p g else None)"
| "m ic (Lit x) p g k =
     (case snd p of [] \<Rightarrow> None | c # cs \<Rightarrow> if lit_eq ic x c then k (Some c, cs) g else None)"
| "m ic (Cls P) p g k =
     (case snd p of [] \<Rightarrow> None | c # cs \<Rightarrow> if in_cls ic P c then k (Some c, cs) g else None)"
| "m ic (Rep lo hi P) p g k = rep (in_cls ic P) lo hi p (\<lambda>p'. k p' g)"
| "m ic (Cat a b) p g k = m ic a p g (\<lambda>p' g'. m ic b p' g' k)"
| "m ic (Alt a b) p g k = (case m ic a p g k of Some r \<Rightarrow> Some r | None \<Rightarrow> m ic b p g k)"
| "m ic (Opt a) p g k = (case m ic a p g k of Some r \<Rightarrow> Some r | None \<Rightarrow> k p g)"
| "m ic (Grp n a) p g k =
     m ic a p g (\<lambda>p' g'. k p' ((n, take (length (snd p) - length (snd p')) (snd p)) # g'))"

text \<open>The match of the pattern that starts at a position: where it ends, and its groups.\<close>

definition match_at :: "bool \<Rightarrow> regex \<Rightarrow> pos \<Rightarrow> (pos \<times> groups) option" where
  "match_at ic r p = m ic r p [] (\<lambda>p' g. Some (p', g))"

text \<open>
  \<open>re.sub\<close>: the subject is scanned from the left; each match is replaced and the scan goes
  on after it; a character where no match starts is copied. (An empty match is replaced and
  the next character copied; the patterns of this program never match the empty string.)
\<close>

fun re_sub_from :: "bool \<Rightarrow> regex \<Rightarrow> (groups \<Rightarrow> string) \<Rightarrow> char option \<Rightarrow> string \<Rightarrow> string" where
  "re_sub_from ic r repl prev rest =
     (case match_at ic r (prev, rest) of
        Some ((prev', rest'), g) \<Rightarrow>
          if length rest' < length rest then repl g @ re_sub_from ic r repl prev' rest'
          else (case rest of
                  [] \<Rightarrow> repl g
                | c # cs \<Rightarrow> repl g @ c # re_sub_from ic r repl (Some c) cs)
      | None \<Rightarrow>
          (case rest of
             [] \<Rightarrow> []
           | c # cs \<Rightarrow> c # re_sub_from ic r repl (Some c) cs))"

declare re_sub_from.simps [simp del]

definition re_sub :: "bool \<Rightarrow> regex \<Rightarrow> (groups \<Rightarrow> string) \<Rightarrow> string \<Rightarrow> string" where
  "re_sub ic r repl s = re_sub_from ic r repl None s"

text \<open>\<open>re.search\<close>: does the pattern match anywhere in the subject?\<close>

fun re_search_from :: "bool \<Rightarrow> regex \<Rightarrow> char option \<Rightarrow> string \<Rightarrow> bool" where
  "re_search_from ic r prev [] = (match_at ic r (prev, []) \<noteq> None)"
| "re_search_from ic r prev (c # cs) =
     (match_at ic r (prev, c # cs) \<noteq> None \<or> re_search_from ic r (Some c) cs)"

definition re_search :: "bool \<Rightarrow> regex \<Rightarrow> string \<Rightarrow> bool" where
  "re_search ic r s = re_search_from ic r None s"

fun lits :: "string \<Rightarrow> regex" where
  "lits [] = Rep 0 (Some 0) (\<lambda>_. False)"
| "lits [c] = Lit c"
| "lits (c # cs) = Cat (Lit c) (lits cs)"

fun cats :: "regex list \<Rightarrow> regex" where
  "cats [] = Rep 0 (Some 0) (\<lambda>_. False)"
| "cats [r] = r"
| "cats (r # rs) = Cat r (cats rs)"

fun alts :: "regex list \<Rightarrow> regex" where
  "alts [] = Cls (\<lambda>_. False)"
| "alts [r] = r"
| "alts (r # rs) = Alt r (alts rs)"

fun group :: "nat \<Rightarrow> groups \<Rightarrow> string" where
  "group n [] = []"
| "group n ((k, s) # g) = (if k = n then s else group n g)"

section \<open>Anonymisation\<close>

text \<open>The class \<open>[a-z\<dots>]\<close> of the name pattern: \<open>a-z\<close> and the twelve accented letters.\<close>

definition name_letter :: "char \<Rightarrow> bool" where
  "name_letter c = (in_range (CHR ''a'') (CHR ''z'') c \<or>
     c \<in> set [CHR 0xE9, CHR 0xE8, CHR 0xEA, CHR 0xEB, CHR 0xE0, CHR 0xE2, CHR 0xE4,
                CHR 0xF4, CHR 0xF6, CHR 0xFB, CHR 0xFC, CHR 0xE7])"

text \<open>\<open>[A-Z][a-z\<dots>]+\<close>\<close>

definition cap_word :: regex where
  "cap_word = Cat (Cls (in_range (CHR ''A'') (CHR ''Z''))) (Rep 1 None name_letter)"

text \<open>\<open>\b(Monsieur|Mr|M\.|Madame|Mme|Mlle)\s+([A-Z][a-z\<dots>]+(?:\s+[A-Z][a-z\<dots>]+)?)\<close>\<close>

definition honorifics :: "string list" where
  "honorifics = [''Monsieur'', ''Mr'', ''M.'', ''Madame'', ''Mme'', ''Mlle'']"

definition rx_nom :: regex where
  "rx_nom = cats [Bnd,
     Grp 1 (alts (map lits honorifics)),
     Rep 1 None isspace,
     Grp 2 (Cat cap_word (Opt (Cat (Rep 1 None isspace) cap_word)))]"

definition alnum_ascii :: "char \<Rightarrow> bool" where
  "alnum_ascii c = (in_range (CHR ''a'') (CHR ''z'') c \<or> in_range (CHR ''A'') (CHR ''Z'') c \<or>
     in_range (CHR ''0'') (CHR ''9'') c)"

text \<open>\<open>\b[a-zA-Z0-9_.+-]+@[a-zA-Z0-9-]+\.[a-zA-Z0-9-.]+\b\<close>\<close>

definition rx_email :: regex where
  "rx_email = cats [Bnd,
     Rep 1 None (\<lambda>c. alnum_ascii c \<or> c \<in> set ''_.+-''),
     Lit (CHR ''@''),
     Rep 1 None (\<lambda>c. alnum_ascii c \<or> c = CHR ''-''),
     Lit (CHR ''.''),
     Rep 1 None (\<lambda>c. alnum_ascii c \<or> c \<in> set ''-.''),
     Bnd]"

text \<open>\<open>[\s.-]\<close>\<close>

definition sep_cls :: "char \<Rightarrow> bool" where
  "sep_cls c = (isspace c \<or> c \<in> set ''.-'')"

text \<open>\<open>\b0[1-9][\s.-]?\d{2}[\s.-]?\d{2}[\s.-]?\d{2}[\s.-]?\d{2}\b\<close>\<close>

definition rx_telephone :: regex where
  "rx_telephone = cats [Bnd,
     Lit (CHR ''0''), Cls (in_range (CHR ''1'') (CHR ''9'')),
     Rep 0 (Some 1) sep_cls, Rep 2 (Some 2) isdecimal,
     Rep 0 (Some 1) sep_cls, Rep 2 (Some 2) isdecimal,
     Rep 0 (Some 1) sep_cls, Rep 2 (Some 2) isdecimal,
     Rep 0 (Some 1) sep_cls, Rep 2 (Some 2) isdecimal,
     Bnd]"

text \<open>\<open>\b[A-Z]{2}\d{2}[\s]?[\w\s]{4,30}\b\<close>\<close>

definition rx_iban :: regex where
  "rx_iban = cats [Bnd,
     Rep 2 (Some 2) (in_range (CHR ''A'') (CHR ''Z'')),
     Rep 2 (Some 2) isdecimal,
     Rep 0 (Some 1) isspace,
     Rep 4 (Some 30) (\<lambda>c. isword c \<or> isspace c),
     Bnd]"

definition tok_nom :: string where
  "tok_nom = ''[nom]''"

definition tok_email :: string where
  "tok_email = ''[email]''"

definition tok_telephone :: string where
  "tok_telephone = ''[t'' @ [CHR 0xE9] @ ''l'' @ [CHR 0xE9] @ ''phone]''"

definition tok_iban :: string where
  "tok_iban = ''[IBAN]''"

text \<open>The four substitutions of \<open>anonymiser_texte\<close>, one by one.\<close>

definition sub_nom :: "string \<Rightarrow> string" where
  "sub_nom = re_sub True rx_nom (\<lambda>g. group 1 g @ '' '' @ tok_nom)"

definition sub_email :: "string \<Rightarrow> string" where
  "sub_email = re_sub False rx_email (\<lambda>g. tok_email)"

definition sub_telephone :: "string \<Rightarrow> string" where
  "sub_telephone = re_sub False rx_telephone (\<lambda>g. tok_telephone)"

definition sub_iban :: "string \<Rightarrow> string" where
  "sub_iban = re_sub False rx_iban (\<lambda>g. tok_iban)"

definition anonymiser_texte :: "string \<Rightarrow> string" where
  "anonymiser_texte texte = sub_iban (sub_telephone (sub_email (sub_nom texte)))"

section \<open>Agents\<close>

record AIAgent =
  name :: string
  description :: string
  prompt_template :: string
  model :: string
  access_level :: string

definition jurifix_prompt_template :: string where
  "jurifix_prompt_template =
     ''Tu es un correcteur orthographique expert sp'' @ [CHR 0xE9] @ ''cialis'' @ [CHR 0xE9] @ '' en textes juridiques.\<newline>\<newline>R'' @ [CHR 0xC8] @ ''GLES ABSOLUES '' @ [CHR 0xC0] @ '' RESPECTER :\<newline>1. Corrige UNIQUEMENT l'orthographe, la grammaire et la ponctuation\<newline>2. Ne change JAMAIS les formulations, le style ou le vocabulaire juridique\<newline>3. Pr'' @ [CHR 0xE9] @ ''serve ABSOLUMENT la structure et la longueur des phrases\<newline>4. Ne reformule RIEN, ne r'' @ [CHR 0xE9] @ ''sume RIEN, ne raccourcis RIEN\<newline>5. Garde exactement le m'' @ [CHR 0xEA] @ ''me niveau de langage et le m'' @ [CHR 0xEA] @ ''me ton\<newline>6. Conserve tous les termes juridiques techniques tels quels\<newline>7. Retourne UNIQUEMENT le texte corrig'' @ [CHR 0xE9] @ '', sans aucun commentaire avant ou apr'' @ [CHR 0xE8] @ ''s\<newline>8. Pr'' @ [CHR 0xE9] @ ''serve EXACTEMENT le nombre de mots et la structure des phrases\<newline>\<newline>Texte '' @ [CHR 0xE0] @ '' corriger : '' @ [CHR 0x22] @ [CHR 0x22] @ [CHR 0x22] @ ''{}'' @ [CHR 0x22] @ [CHR 0x22] @ [CHR 0x22] @ ''\<newline>\<newline>Retourne UNIQUEMENT le texte corrig'' @ [CHR 0xE9] @ '' :''"

definition jurifix :: AIAgent where
  "jurifix = \<lparr>
     name = ''JuriFix - Correction Orthographique Pr'' @ [CHR 0xE9] @ ''cise'',
     description = ''Corrige uniquement l'orthographe et la grammaire sans modifier le style ou les formulations juridiques'',
     prompt_template = jurifix_prompt_template,
     model = ''gpt-4'',
     access_level = ''collaborateur'' \<rparr>"

text \<open>The registry \<open>AGENTS\<close>: a dictionary with the single key \<open>jurifix\<close>.\<close>

definition AGENTS :: "string \<Rightarrow> AIAgent option" where
  "AGENTS = [''jurifix'' \<mapsto> jurifix]"

section \<open>The database and the completion service\<close>

text \<open>
  Times are microseconds (the resolution of \<open>datetime\<close>); \<open>processing_time\<close>, a number of
  seconds in the source, is kept in the same unit.
\<close>

type_synonym datetime = int

record Document =
  doc_id :: string
  title :: string
  content :: string
  corrected_content :: "string option"
  agent_used :: string
  user_id :: nat
  created_at :: datetime
  updated_at :: datetime
  status :: string
  word_count :: nat
  corrections_count :: nat
  processing_time :: int
  shared_with :: "string option"
  visibility :: string
  html_structure :: "string option"

record CorrectionHistory =
  hist_id :: nat
  document_id :: string
  original_text :: string
  corrected_text :: string
  corrections_made :: "string option"
  timestamp :: datetime
  ip_address :: "string option"
  user_agent :: "string option"

text \<open>The request sent by \<open>client.chat.completions.create\<close>.\<close>

record completion_request =
  req_model :: string
  req_messages :: "(string \<times> string) list"
  req_temperature :: int
  req_max_tokens :: nat

text \<open>
  What lies outside the program: the HTML parser
  (\<open>BeautifulSoup(texte, 'html.parser').get_text(separator='\n')\<close>), the completion service
  (\<open>Inr\<close> the content of the first choice, \<open>Inl\<close> the message of the exception raised by
  the call or by reading the reply) and the rounding \<open>round(x, 2)\<close> of a float.
\<close>

record env =
  soup_get_text :: "string \<Rightarrow> string"
  chat_completions_create :: "completion_request \<Rightarrow> string + string"
  round_2 :: "int \<Rightarrow> int"

text \<open>
  What a request carries besides its body: the logged-in user, the successive readings of
  \<open>datetime.utcnow()\<close>, the \<open>uuid4\<close> drawn for a new document, and the default title
  (\<open>Document du\<close> and the local date, in the format of the endpoint).
\<close>

record ctx =
  current_user_id :: nat
  utcnow :: "nat \<Rightarrow> datetime"
  new_uuid :: string
  default_title :: string

text \<open>
  The state: the two tables, and the log of the requests sent to the completion service.
\<close>

record world =
  documents :: "Document list"
  correction_history :: "CorrectionHistory list"
  completion_calls :: "completion_request list"

datatype response =
    Processed string string int nat nat
  | Saved string
  | Created string
  | Updated
  | Error nat string

text \<open>\<open>data.get(key, default)\<close>\<close>

definition get_default :: "'a option \<Rightarrow> 'a \<Rightarrow> 'a" where
  "get_default v d = (case v of None \<Rightarrow> d | Some x \<Rightarrow> x)"

text \<open>\<open>Document.query.filter_by(id=document_id, user_id=current_user.id).first()\<close>\<close>

definition query_first :: "string \<Rightarrow> nat \<Rightarrow> Document list \<Rightarrow> Document option" where
  "query_first did uid docs = find (\<lambda>d. doc_id d = did \<and> user_id d = uid) docs"

text \<open>The \<open>UPDATE\<close> that a commit issues for the row with this primary key.\<close>

fun update_row :: "string \<Rightarrow> Document \<Rightarrow> Document list \<Rightarrow> Document list" where
  "update_row did d' [] = []"
| "update_row did d' (d # ds) = (if doc_id d = did then d' # ds else d # update_row did d' ds)"

text \<open>The value of an optional identifier when it is truthy (\<open>if document_id:\<close>).\<close>

definition truthy :: "string option \<Rightarrow> string option" where
  "truthy v = (case v of None \<Rightarrow> None | Some s \<Rightarrow> if s = [] then None else Some s)"

section \<open>\<open>process_text\<close>\<close>

record process_data =
  d_texte :: "string option"
  d_agent :: "string option"
  d_document_id :: "string option"

definition is_html :: "string \<Rightarrow> bool" where
  "is_html texte = (str_in ''<p>'' texte \<or> str_in ''<div>'' texte)"

text \<open>Lines 383-388: the plain text \<open>texte_brut\<close>.\<close>

definition extract_plain_text :: "env \<Rightarrow> string \<Rightarrow> string" where
  "extract_plain_text e texte = (if is_html texte then soup_get_text e texte else texte)"

text \<open>Lines 421-427: the reply is stripped, then the two quote tests run one after the other.\<close>

definition nettoyer_guillemets :: "string \<Rightarrow> string" where
  "nettoyer_guillemets reply =
     (let t0 = strip reply;
          t1 = (if startswith t0 dquote \<and> endswith t0 dquote then slice_1_m1 t0 else t0);
          t2 = (if startswith t1 squote \<and> endswith t1 squote then slice_1_m1 t1 else t1)
      in t2)"

text \<open>Lines 432-433: the segments of the corrected text that become paragraphs.\<close>

definition paragraphes_corriges :: "string \<Rightarrow> string list" where
  "paragraphes_corriges t = filter (\<lambda>p. strip p \<noteq> []) (split_sep newline t)"

definition p_element :: "string \<Rightarrow> string" where
  "p_element p = ''<p>'' @ p @ ''</p>''"

definition reconstituer_html :: "string \<Rightarrow> string" where
  "reconstituer_html t = concat (map p_element (paragraphes_corriges t))"

text \<open>Lines 441-443.\<close>

definition compter_corrections :: "string \<Rightarrow> string \<Rightarrow> nat" where
  "compter_corrections texte_brut texte_corrige =
     (if texte_brut \<noteq> texte_corrige
      then max 1 (nat \<bar>int (length (split texte_brut)) - int (length (split texte_corrige))\<bar>)
      else 0)"

definition system_message :: string where
  "system_message = ''Tu es un correcteur orthographique expert. Tu corriges UNIQUEMENT l'orthographe et la grammaire. Retourne le texte corrig'' @ [CHR 0xE9] @ '' sans guillemets, sans commentaires, sans pr'' @ [CHR 0xE9] @ ''ambule.''"

definition build_request :: "AIAgent \<Rightarrow> string \<Rightarrow> completion_request" where
  "build_request a texte_anonyme = \<lparr>
     req_model = model a,
     req_messages = [(''system'', system_message),
                     (''user'', format1 (prompt_template a) texte_anonyme)],
     req_temperature = 0,
     req_max_tokens = length (split texte_anonyme) * 3 \<rparr>"

text \<open>Lines 446-456: the update of the document named by the request, if the user owns it.\<close>

definition save_after_process ::
  "ctx \<Rightarrow> string option \<Rightarrow> string \<Rightarrow> string \<Rightarrow> nat \<Rightarrow> nat \<Rightarrow> int \<Rightarrow> world \<Rightarrow> world" where
  "save_after_process c did_opt texte texte_corrige n_words n_corrections elapsed w =
     (case truthy did_opt of
        None \<Rightarrow> w
      | Some did \<Rightarrow>
          (case query_first did (current_user_id c) (documents w) of
             None \<Rightarrow> w
           | Some document \<Rightarrow>
               w\<lparr>documents := update_row did
                    (document\<lparr>content := texte,
                              corrected_content := Some texte_corrige,
                              status := ''completed'',
                              word_count := n_words,
                              corrections_count := n_corrections,
                              processing_time := elapsed,
                              updated_at := utcnow c 2\<rparr>)
                    (documents w)\<rparr>))"

definition process_text :: "env \<Rightarrow> ctx \<Rightarrow> process_data \<Rightarrow> world \<Rightarrow> response \<times> world" where
  "process_text e c data w =
     (let texte = get_default (d_texte data) [];
          agent_name = get_default (d_agent data) ''jurifix'';
          texte_brut = extract_plain_text e texte
      in if strip texte_brut = [] then (Error 400 ''Texte vide'', w)
         else
           (case AGENTS agent_name of
              None \<Rightarrow> (Error 400 ''Agent non reconnu'', w)
            | Some a \<Rightarrow>
                (let start_time = utcnow c 0;
                     texte_anonyme = anonymiser_texte texte_brut;
                     request = build_request a texte_anonyme;
                     w1 = w\<lparr>completion_calls := completion_calls w @ [request]\<rparr>
                 in case chat_completions_create e request of
                      Inl exn \<Rightarrow> (Error 500 (''Erreur lors du traitement: '' @ exn), w1)
                    | Inr reply \<Rightarrow>
                        (let corrige = nettoyer_guillemets reply;
                             texte_corrige =
                               (if is_html texte then reconstituer_html corrige else corrige);
                             elapsed = utcnow c 1 - start_time;
                             n_words = length (split texte_brut);
                             n_corrections = compter_corrections texte_brut texte_corrige;
                             w2 = save_after_process c (d_document_id data) texte texte_corrige
                                    n_words n_corrections elapsed w1
                         in (Processed texte_corrige agent_name (round_2 e elapsed)
                               n_words n_corrections, w2)))))"

section \<open>The document endpoints\<close>

text \<open>
  A row as \<open>db.session.add\<close> and the commit insert it: the columns the constructor names,
  and the column defaults for the rest.
\<close>

definition new_document :: "ctx \<Rightarrow> string \<Rightarrow> string \<Rightarrow> string option \<Rightarrow> string \<Rightarrow> Document" where
  "new_document c t txt corrected a = \<lparr>
     doc_id = new_uuid c,
     title = t,
     content = txt,
     corrected_content = corrected,
     agent_used = a,
     user_id = current_user_id c,
     created_at = utcnow c 0,
     updated_at = utcnow c 1,
     status = ''draft'',
     word_count = 0,
     corrections_count = 0,
     processing_time = 0,
     shared_with = None,
     visibility = ''private'',
     html_structure = None \<rparr>"

record save_data =
  s_id :: "string option"
  s_title :: "string option"
  s_content :: "string option"
  s_corrected_content :: "string option"
  s_agent :: "string option"

text \<open>\<open>POST /api/documents/save\<close>\<close>

definition save_document :: "ctx \<Rightarrow> save_data \<Rightarrow> world \<Rightarrow> response \<times> world" where
  "save_document c data w =
     (let t = get_default (s_title data) (default_title c);
          txt = get_default (s_content data) [];
          corrected = get_default (s_corrected_content data) [];
          a = get_default (s_agent data) ''jurifix''
      in case truthy (s_id data) of
           Some did \<Rightarrow>
             (case query_first did (current_user_id c) (documents w) of
                None \<Rightarrow> (Error 404 (''Document non trouv'' @ [CHR 0xE9]), w)
              | Some document \<Rightarrow>
                  (Saved (doc_id document),
                   w\<lparr>documents := update_row did
                        (document\<lparr>title := t,
                                  content := txt,
                                  corrected_content := Some corrected,
                                  updated_at := utcnow c 0\<rparr>)
                        (documents w)\<rparr>))
         | None \<Rightarrow>
             (let document = new_document c t txt (Some corrected) a
              in (Saved (doc_id document), w\<lparr>documents := documents w @ [document]\<rparr>)))"

record create_data =
  c_title :: "string option"
  c_content :: "string option"
  c_agent :: "string option"

text \<open>\<open>POST /api/documents\<close>\<close>

definition handle_documents_post :: "ctx \<Rightarrow> create_data \<Rightarrow> world \<Rightarrow> response \<times> world" where
  "handle_documents_post c data w =
     (let document = new_document c (get_default (c_title data) (default_title c))
                       (get_default (c_content data) []) None
                       (get_default (c_agent data) ''jurifix'')
      in (Created (doc_id document), w\<lparr>documents := documents w @ [document]\<rparr>))"

record put_data =
  p_title :: "string option"
  p_content :: "string option"
  p_status :: "string option"

text \<open>The assignments of the \<open>PUT\<close> branch (lines 585-588) on the row found.\<close>

definition put_fields :: "ctx \<Rightarrow> put_data \<Rightarrow> Document \<Rightarrow> Document" where
  "put_fields c data document =
     document\<lparr>title := get_default (p_title data) (title document),
              content := get_default (p_content data) (content document),
              status := get_default (p_status data) (status document),
              updated_at := utcnow c 0\<rparr>"

text \<open>\<open>PUT /api/documents/<document_id>\<close>; \<open>first_or_404\<close> answers 404 when no row is found.\<close>

definition handle_document_put :: "ctx \<Rightarrow> string \<Rightarrow> put_data \<Rightarrow> world \<Rightarrow> response \<times> world" where
  "handle_document_put c did data w =
     (case query_first did (current_user_id c) (documents w) of
        None \<Rightarrow> (Error 404 (''Endpoint non trouv'' @ [CHR 0xE9]), w)
      | Some document \<Rightarrow>
          (Updated, w\<lparr>documents := update_row did (put_fields c data document) (documents w)\<rparr>))"

section \<open>The specification's reading\<close>

text \<open>
  The quote stripping as the specification words it: the single-quote test is the
  else-branch of the double-quote test.
\<close>

definition nettoyer_guillemets_spec :: "string \<Rightarrow> string" where
  "nettoyer_guillemets_spec reply =
     (let t0 = strip reply
      in if startswith t0 dquote \<and> endswith t0 dquote then slice_1_m1 t0
         else if startswith t0 squote \<and> endswith t0 squote then slice_1_m1 t0
         else t0)"

text \<open>The specification's invariant on a document.\<close>

definition corrected_only_when_completed :: "Document \<Rightarrow> bool" where
  "corrected_only_when_completed d = (corrected_content d \<noteq> None \<longrightarrow> status d = ''completed'')"

text \<open>The columns that a \<open>PUT\<close> on a document is not to touch.\<close>

definition same_untouched_columns :: "Document \<Rightarrow> Document \<Rightarrow> bool" where
  "same_untouched_columns d d' =
     (doc_id d' = doc_id d \<and> user_id d' = user_id d \<and> created_at d' = created_at d \<and>
      corrected_content d' = corrected_content d \<and> agent_used d' = agent_used d \<and>
      word_count d' = word_count d \<and> corrections_count d' = corrections_count d \<and>
      processing_time d' = processing_time d \<and> shared_with d' = shared_with d \<and>
      visibility d' = visibility d \<and> html_structure d' = html_structure d)"

text \<open>The number of places where \<open>sub\<close> occurs in a text.\<close>

fun count_sub :: "string \<Rightarrow> string \<Rightarrow> nat" where
  "count_sub sub [] = 0"
| "count_sub sub (c # cs) =
     (if take (length sub) (c # cs) = sub then 1 else 0) + count_sub sub cs"

section \<open>Notions about the rules\<close>

text \<open>The four rules in their order, each with its \<open>IGNORECASE\<close> flag, and the tokens.\<close>

definition rules :: "(bool \<times> regex) list" where
  "rules = [(True, rx_nom), (False, rx_email), (False, rx_telephone), (False, rx_iban)]"

definition tokens :: "string list" where
  "tokens = [tok_nom, tok_email, tok_telephone, tok_iban]"

text \<open>A text holds a matchable pattern when one of the rules matches somewhere in it.\<close>

definition matchable :: "string \<Rightarrow> bool" where
  "matchable y = list_ex (\<lambda>(ic, r). re_search ic r y) rules"

text \<open>A pattern that has no way to consume the character \<open>c\<close>.\<close>

fun avoids :: "bool \<Rightarrow> regex \<Rightarrow> char \<Rightarrow> bool" where
  "avoids ic Bnd c = True"
| "avoids ic (Lit x) c = (\<not> lit_eq ic x c)"
| "avoids ic (Cls P) c = (\<not> in_cls ic P c)"
| "avoids ic (Rep lo hi P) c = (\<not> in_cls ic P c)"
| "avoids ic (Cat a b) c = (avoids ic a c \<and> avoids ic b c)"
| "avoids ic (Alt a b) c = (avoids ic a c \<and> avoids ic b c)"
| "avoids ic (Opt a) c = avoids ic a c"
| "avoids ic (Grp n a) c = avoids ic a c"

text \<open>The character before the position reached after reading \<open>xs\<close>.\<close>

definition end_prev :: "char option \<Rightarrow> string \<Rightarrow> char option" where
  "end_prev prev xs = (if xs = [] then prev else Some (last xs))"

text \<open>
  The part of the result of \<open>re.sub\<close> that stems from \<open>pre\<close>, when the subject is
  \<open>pre\<close> followed by \<open>rest\<close>: the scan of \<open>re_sub_from\<close>, stopped where \<open>rest\<close> begins.
  It is \<open>None\<close> when a match that the scan takes in \<open>pre\<close> reaches into \<open>rest\<close>.
\<close>

fun scan_before :: "bool \<Rightarrow> regex \<Rightarrow> (groups \<Rightarrow> string) \<Rightarrow> char option \<Rightarrow> string \<Rightarrow> string \<Rightarrow> string option" where
  "scan_before ic r repl prev [] rest = Some []"
| "scan_before ic r repl prev (c # cs) rest =
     (case match_at ic r (prev, c # cs @ rest) of
        Some ((prev', rest'), g) \<Rightarrow>
          if length rest' < length rest then None
          else if length rest' < length (c # cs @ rest)
          then map_option (\<lambda>out. repl g @ out)
                 (scan_before ic r repl prev' (take (length rest' - length rest) rest') rest)
          else map_option (\<lambda>out. repl g @ c # out) (scan_before ic r repl (Some c) cs rest)
      | None \<Rightarrow> map_option (\<lambda>out. c # out) (scan_before ic r repl (Some c) cs rest))"

text \<open>No match of the pattern starts in \<open>pre\<close>, in the subject \<open>pre\<close> followed by \<open>rest\<close>.\<close>

fun no_match_before :: "bool \<Rightarrow> regex \<Rightarrow> char option \<Rightarrow> string \<Rightarrow> string \<Rightarrow> bool" where
  "no_match_before ic r prev [] rest = True"
| "no_match_before ic r prev (c # cs) rest =
     (match_at ic r (prev, c # cs @ rest) = None \<and> no_match_before ic r (Some c) cs rest)"

text \<open>
  The name pattern is applied with \<open>IGNORECASE\<close>: its class \<open>[A-Z]\<close> then holds the
  letters \<open>A-Z\<close> and \<open>a-z\<close>, and its class \<open>[a-z\<dots>]\<close> holds its letters in either case.
  A name word is what \<open>[A-Z][a-z\<dots>]+\<close> then reads: a letter of the first class followed by
  one or more letters of the second. Capitalised words such as \<open>Durand\<close> are name words.
\<close>

definition first_letter :: "char \<Rightarrow> bool" where
  "first_letter c = in_cls True (in_range (CHR ''A'') (CHR ''Z'')) c"

definition next_letter :: "char \<Rightarrow> bool" where
  "next_letter c = in_cls True name_letter c"

definition name_word :: "string \<Rightarrow> bool" where
  "name_word w = (case w of c # l # ls \<Rightarrow> first_letter c \<and> next_letter l \<and> list_all next_letter ls
                  | _ \<Rightarrow> False)"

text \<open>A run of whitespace, as \<open>\s+\<close> reads it.\<close>

definition blank :: "string \<Rightarrow> bool" where
  "blank ws = (ws \<noteq> [] \<and> list_all isspace ws)"

text \<open>Two name words with whitespace between them.\<close>

definition two_words :: "string \<Rightarrow> bool" where
  "two_words nm = (let r = dropWhile (\<lambda>c. \<not> isspace c) nm in
     name_word (takeWhile (\<lambda>c. \<not> isspace c) nm) \<and> r \<noteq> [] \<and> name_word (dropWhile isspace r))"

text \<open>The text starts with a letter of the first class and a letter of the second.\<close>

definition starts_word :: "string \<Rightarrow> bool" where
  "starts_word s = (case s of c # l # _ \<Rightarrow> first_letter c \<and> next_letter l | _ \<Rightarrow> False)"

text \<open>After a first name word, the text goes on with whitespace and a second name word.\<close>

definition second_word_follows :: "string \<Rightarrow> bool" where
  "second_word_follows post =
     (post \<noteq> [] \<and> isspace (hd post) \<and> starts_word (dropWhile isspace post))"

text \<open>The last name word is not continued by a further letter of its class.\<close>

definition name_ends :: "string \<Rightarrow> bool" where
  "name_ends post = (post = [] \<or> \<not> next_letter (hd post))"

text \<open>
  \<open>nm\<close>, followed by \<open>post\<close>, is the name portion the pattern captures: two name words, or
  one name word that no second one follows; and the last word ends where \<open>post\<close> begins.
\<close>

definition name_portion :: "string \<Rightarrow> string \<Rightarrow> bool" where
  "name_portion nm post =
     (name_ends post \<and> (two_words nm \<or> (name_word nm \<and> \<not> second_word_follows post)))"

text \<open>The three rules that run after the name rule, with their tokens.\<close>

definition later_rules :: "(bool \<times> regex \<times> string) list" where
  "later_rules = [(False, rx_email, tok_email), (False, rx_telephone, tok_telephone),
                  (False, rx_iban, tok_iban)]"

text \<open>
  What the four rules make of the text \<open>post\<close> that follows a replaced name: the name rule
  goes on after the character \<open>prev\<close> that ended the name, and each later rule goes on after
  the closing bracket of the token \<open>[nom]\<close>.
\<close>

definition redact_after :: "char option \<Rightarrow> string \<Rightarrow> string" where
  "redact_after prev post =
     re_sub_from False rx_iban (\<lambda>g. tok_iban) (Some (CHR '']''))
       (re_sub_from False rx_telephone (\<lambda>g. tok_telephone) (Some (CHR '']''))
          (re_sub_from False rx_email (\<lambda>g. tok_email) (Some (CHR '']''))
             (re_sub_from True rx_nom (\<lambda>g. group 1 g @ '' '' @ tok_nom) prev post)))"

section \<open>A concrete environment\<close>

text \<open>
  For runs on concrete inputs: a completion service that answers every request with a fixed
  reply, and the parser's \<open>get_text\<close> on markup made of text and tags \<open><...>\<close> only (the
  text nodes between the tags, joined by the separator; character references, comments and
  a \<open><\<close> that opens no tag are outside this stand-in).
\<close>

fun text_nodes :: "bool \<Rightarrow> string \<Rightarrow> string \<Rightarrow> string list" where
  "text_nodes in_tag cur [] = (if cur = [] then [] else [cur])"
| "text_nodes True cur (c # cs) =
     (if c = CHR ''>'' then text_nodes False [] cs else text_nodes True cur cs)"
| "text_nodes False cur (c # cs) =
     (if c = CHR ''<''
      then (if cur = [] then text_nodes True [] cs else cur # text_nodes True [] cs)
      else text_nodes False (cur @ [c]) cs)"

definition get_text_nodes :: "string \<Rightarrow> string" where
  "get_text_nodes texte = join newline (text_nodes False [] texte)"

definition mock_env :: "string \<Rightarrow> env" where
  "mock_env reply = \<lparr>
     soup_get_text = get_text_nodes,
     chat_completions_create = (\<lambda>_. Inr reply),
     round_2 = (\<lambda>us. us div 10000) \<rparr>"

definition ctx0 :: ctx where
  "ctx0 = \<lparr>
     current_user_id = 1,
     utcnow = (\<lambda>k. 1000000 * int k),
     new_uuid = ''d-new'',
     default_title = ''Document du 01/01/2025 00:00'' \<rparr>"

definition doc0 :: Document where
  "doc0 = new_document ctx0 ''Lettre'' ''Bonjour'' None ''jurifix'' \<lparr>doc_id := ''d1''\<rparr>"

definition world0 :: world where
  "world0 = \<lparr>documents = [doc0], correction_history = [], completion_calls = []\<rparr>"

section \<open>Rows of the document table\<close>

lemma update_row_length: "length (update_row did d' ds) = length ds"
  by (induction ds) auto

lemma update_row_set: "set (update_row did d' ds) \<subseteq> insert d' (set ds)"
  by (induction ds) auto

lemma update_row_nth:
  "i < length ds \<Longrightarrow>
   update_row did d' ds ! i = ds ! i \<or> (doc_id (ds ! i) = did \<and> update_row did d' ds ! i = d')"
proof (induction ds arbitrary: i)
  case Nil
  then show ?case by simp
next
  case (Cons a ds)
  then show ?case by (cases i) auto
qed

lemma query_first_Some:
  "query_first did uid ds = Some d \<Longrightarrow> d \<in> set ds \<and> doc_id d = did \<and> user_id d = uid"
  by (auto simp: query_first_def find_Some_iff)

lemma primary_key:
  "distinct (map doc_id ds) \<Longrightarrow> d \<in> set ds \<Longrightarrow> i < length ds \<Longrightarrow>
   doc_id (ds ! i) = doc_id d \<Longrightarrow> ds ! i = d"
  by (metis distinct_map inj_on_def nth_mem)

lemma put_fields_untouched: "same_untouched_columns d (put_fields c data d)"
  by (simp add: same_untouched_columns_def put_fields_def)

section \<open>Lines of a text\<close>

lemma strip_Nil_iff: "strip s = [] \<longleftrightarrow> (\<forall>c \<in> set s. isspace c)"
proof
  assume "strip s = []"
  then have "\<forall>c \<in> set (dropWhile isspace s). isspace c"
    by (simp add: strip_def dropWhile_eq_Nil_conv)
  then have "dropWhile isspace s = []"
    using hd_dropWhile[of isspace s] by (metis hd_in_set)
  then show "\<forall>c \<in> set s. isspace c"
    by (simp add: dropWhile_eq_Nil_conv)
next
  assume "\<forall>c \<in> set s. isspace c"
  then show "strip s = []"
    by (auto simp: strip_def dropWhile_eq_Nil_conv dest: set_dropWhileD)
qed

lemma split_sep_acc_line:
  "sep \<notin> set l \<Longrightarrow> split_sep_acc sep cur (l @ rest) = split_sep_acc sep (cur @ l) rest"
  by (induction l arbitrary: cur) auto

lemma split_sep_acc_join:
  "ls \<noteq> [] \<Longrightarrow> \<forall>l \<in> set ls. sep \<notin> set l \<Longrightarrow>
   split_sep_acc sep cur (join sep ls) = (cur @ hd ls) # tl ls"
proof (induction sep ls arbitrary: cur rule: join.induct)
  case (1 sep)
  then show ?case by simp
next
  case (2 sep p)
  then show ?case using split_sep_acc_line[of sep p cur "[]"] by simp
next
  case (3 sep p q ps)
  have "split_sep_acc sep cur (p @ sep # join sep (q # ps)) =
        split_sep_acc sep (cur @ p) (sep # join sep (q # ps))"
    using 3(3) split_sep_acc_line[of sep p cur] by simp
  also have "\<dots> = (cur @ p) # split_sep_acc sep [] (join sep (q # ps))"
    by simp
  also have "\<dots> = (cur @ p) # q # ps"
    using 3(1)[of "[]"] 3(3) by simp
  finally show ?case by simp
qed

lemma split_sep_join:
  "ls \<noteq> [] \<Longrightarrow> \<forall>l \<in> set ls. sep \<notin> set l \<Longrightarrow> split_sep sep (join sep ls) = ls"
  using split_sep_acc_join[of ls sep "[]"] by (simp add: split_sep_def)

lemma split_sep_acc_nonempty: "split_sep_acc sep cur s \<noteq> []"
  by (induction s arbitrary: cur) auto

lemma join_Cons: "ps \<noteq> [] \<Longrightarrow> join sep (p # ps) = p @ sep # join sep ps"
  by (cases ps) auto

lemma join_split_sep_acc: "join sep (split_sep_acc sep cur s) = cur @ s"
  by (induction s arbitrary: cur) (auto simp: join_Cons split_sep_acc_nonempty)

lemma split_sep_acc_no_sep:
  "sep \<notin> set cur \<Longrightarrow> \<forall>l \<in> set (split_sep_acc sep cur s). sep \<notin> set l"
proof (induction s arbitrary: cur)
  case Nil
  then show ?case by simp
next
  case (Cons a s)
  show ?case
  proof (cases "a = sep")
    case True
    then show ?thesis using Cons.prems Cons.IH[of "[]"] by simp
  next
    case False
    then show ?thesis using Cons.prems Cons.IH[of "cur @ [a]"] by simp
  qed
qed

text \<open>Every text is its lines joined by the separator.\<close>

lemma lines_of_text:
  "join sep (split_sep sep t) = t \<and> split_sep sep t \<noteq> [] \<and> (\<forall>l \<in> set (split_sep sep t). sep \<notin> set l)"
  using split_sep_acc_no_sep[of sep "[]" t]
  by (simp add: split_sep_def join_split_sep_acc split_sep_acc_nonempty)

section \<open>Quote stripping\<close>

text \<open>
  Claim C4, as the code has it. The reply is trimmed; if it then starts and ends with a double
  quote, one is removed from each end; after that, whether or not a double quote was
  removed, if what is left starts and ends with a single quote, one is removed from each
  end. So the result is that of the else-branch reading, except for a double-quoted reply
  whose inside is single-quoted: there both layers go.
\<close>

theorem nettoyer_guillemets_both_tests:
  "nettoyer_guillemets reply =
     (if startswith (strip reply) dquote \<and> endswith (strip reply) dquote \<and>
         startswith (slice_1_m1 (strip reply)) squote \<and>
         endswith (slice_1_m1 (strip reply)) squote
      then slice_1_m1 (slice_1_m1 (strip reply))
      else nettoyer_guillemets_spec reply)"
  by (auto simp: nettoyer_guillemets_def nettoyer_guillemets_spec_def Let_def)

text \<open>A doubly double-quoted reply keeps one layer; the theorem at that reply.\<close>

theorem nettoyer_guillemets_both_tests_witness:
  "nettoyer_guillemets ('' '' @ [dquote, dquote] @ ''hello'' @ [dquote, dquote] @ '' '') =
     [dquote] @ ''hello'' @ [dquote]"
  using nettoyer_guillemets_both_tests
          [of "'' '' @ [dquote, dquote] @ ''hello'' @ [dquote, dquote] @ '' ''"]
  by code_simp

text \<open>
  The reply \<open>"'hello'"\<close>: the code returns \<open>hello\<close>, the else-branch reading keeps the
  single quotes.
\<close>

theorem nettoyer_guillemets_else_branch_counterexample:
  "nettoyer_guillemets ([dquote, squote] @ ''hello'' @ [squote, dquote]) = ''hello'' \<and>
   nettoyer_guillemets_spec ([dquote, squote] @ ''hello'' @ [squote, dquote]) =
     [squote] @ ''hello'' @ [squote] \<and>
   nettoyer_guillemets ([dquote, squote] @ ''hello'' @ [squote, dquote]) \<noteq>
     nettoyer_guillemets_spec ([dquote, squote] @ ''hello'' @ [squote, dquote])"
  by code_simp

section \<open>Unknown agent\<close>

text \<open>
  Claim C9, as the code has it. A call that names an agent outside the registry sends
  nothing to the completion service and changes nothing; it is answered 400, with
  \<open>Texte vide\<close> when the plain text is blank (that test comes first) and with
  \<open>Agent non reconnu\<close> otherwise.
\<close>

theorem process_text_unknown_agent:
  assumes "AGENTS (get_default (d_agent data) ''jurifix'') = None"
  shows "process_text e c data w =
           (if strip (extract_plain_text e (get_default (d_texte data) [])) = []
            then Error 400 ''Texte vide'' else Error 400 ''Agent non reconnu'', w) \<and>
         completion_calls (snd (process_text e c data w)) = completion_calls w"
  using assms by (simp add: process_text_def Let_def)

theorem process_text_unknown_agent_witness:
  "AGENTS (get_default (d_agent \<lparr>d_texte = Some ''Bonjour'', d_agent = Some ''inconnu'',
      d_document_id = None\<rparr>) ''jurifix'') = None \<and>
   process_text (mock_env ''x'') ctx0
     \<lparr>d_texte = Some ''Bonjour'', d_agent = Some ''inconnu'', d_document_id = None\<rparr> world0 =
     (Error 400 ''Agent non reconnu'', world0)"
proof -
  let ?data = "\<lparr>d_texte = Some ''Bonjour'', d_agent = Some ''inconnu'', d_document_id = None\<rparr>"
  have unknown: "AGENTS (get_default (d_agent ?data) ''jurifix'') = None"
    by (simp add: AGENTS_def get_default_def)
  have nonblank: "strip (extract_plain_text (mock_env ''x'') (get_default (d_texte ?data) [])) \<noteq> []"
    by code_simp
  from process_text_unknown_agent[OF unknown, of "mock_env ''x''" ctx0 world0] nonblank unknown
  show ?thesis by simp
qed

text \<open>An unknown agent with a blank text: the answer is \<open>Texte vide\<close>.\<close>

theorem process_text_unknown_agent_blank_counterexample:
  "AGENTS ''inconnu'' = None \<and>
   fst (process_text (mock_env ''x'') ctx0
     \<lparr>d_texte = Some ''   '', d_agent = Some ''inconnu'', d_document_id = None\<rparr> world0) =
     Error 400 ''Texte vide'' \<and>
   fst (process_text (mock_env ''x'') ctx0
     \<lparr>d_texte = Some ''   '', d_agent = Some ''inconnu'', d_document_id = None\<rparr> world0) \<noteq>
     Error 400 ''Agent non reconnu''"
  by code_simp

section \<open>A document identifier that names no owned document\<close>

text \<open>
  Claim C8. When the identifier sent with a call names no document of the requesting user
  (no such row, or a row of another user), the call does exactly what the same call without
  an identifier does: the same answer (an error only where that call has one), the same
  state; and the document table is the one before the call.
\<close>

theorem process_text_missing_document:
  assumes "query_first did (current_user_id c) (documents w) = None"
  shows "process_text e c (data\<lparr>d_document_id := Some did\<rparr>) w =
           process_text e c (data\<lparr>d_document_id := None\<rparr>) w \<and>
         documents (snd (process_text e c (data\<lparr>d_document_id := Some did\<rparr>) w)) = documents w"
  using assms
  by (auto simp: process_text_def Let_def save_after_process_def truthy_def
           split: option.splits sum.splits)

text \<open>The document \<open>d1\<close> belongs to user 1; user 2 names it.\<close>

theorem process_text_missing_document_witness:
  "query_first ''d1'' (current_user_id (ctx0\<lparr>current_user_id := 2\<rparr>)) (documents world0) = None \<and>
   fst (process_text (mock_env ''Bonjour'') (ctx0\<lparr>current_user_id := 2\<rparr>)
     (\<lparr>d_texte = Some ''Bonjour'', d_agent = None, d_document_id = None\<rparr>
        \<lparr>d_document_id := Some ''d1''\<rparr>) world0) =
     Processed ''Bonjour'' ''jurifix'' 100 1 0 \<and>
   documents (snd (process_text (mock_env ''Bonjour'') (ctx0\<lparr>current_user_id := 2\<rparr>)
     (\<lparr>d_texte = Some ''Bonjour'', d_agent = None, d_document_id = None\<rparr>
        \<lparr>d_document_id := Some ''d1''\<rparr>) world0)) =
     documents world0"
proof -
  let ?c = "ctx0\<lparr>current_user_id := 2\<rparr>"
  let ?data = "\<lparr>d_texte = Some ''Bonjour'', d_agent = None, d_document_id = None\<rparr>"
  have missing: "query_first ''d1'' (current_user_id ?c) (documents world0) = None"
    by code_simp
  have without: "fst (process_text (mock_env ''Bonjour'') ?c (?data\<lparr>d_document_id := None\<rparr>) world0) =
      Processed ''Bonjour'' ''jurifix'' 100 1 0"
    by code_simp
  note both = process_text_missing_document[OF missing, of "mock_env ''Bonjour''" ?data]
  have "fst (process_text (mock_env ''Bonjour'') ?c (?data\<lparr>d_document_id := Some ''d1''\<rparr>) world0) =
      Processed ''Bonjour'' ''jurifix'' 100 1 0"
    by (simp only: conjunct1[OF both] without)
  with missing conjunct2[OF both] show ?thesis by blast
qed

section \<open>The \<open>PUT\<close> on one document\<close>

text \<open>
  Claim C10. A \<open>PUT\<close> that finds the document answers with success, leaves the history table
  alone and keeps every row of the document table except the one found (the identifier is
  the primary key); in that row only \<open>title\<close>, \<open>content\<close>, \<open>status\<close> and
  \<open>updated_at\<close> can differ from before, and each of the first three keeps its value when
  the request body does not name it.
\<close>

theorem handle_document_put_frame:
  assumes found: "query_first did (current_user_id c) (documents w) = Some d"
      and pk: "distinct (map doc_id (documents w))"
  shows "fst (handle_document_put c did data w) = Updated \<and>
     correction_history (snd (handle_document_put c did data w)) = correction_history w \<and>
     length (documents (snd (handle_document_put c did data w))) = length (documents w) \<and>
     (\<forall>i < length (documents w).
        documents (snd (handle_document_put c did data w)) ! i = documents w ! i \<or>
        (documents w ! i = d \<and>
         same_untouched_columns d (documents (snd (handle_document_put c did data w)) ! i) \<and>
         (p_title data = None \<longrightarrow>
            title (documents (snd (handle_document_put c did data w)) ! i) = title d) \<and>
         (p_content data = None \<longrightarrow>
            content (documents (snd (handle_document_put c did data w)) ! i) = content d) \<and>
         (p_status data = None \<longrightarrow>
            status (documents (snd (handle_document_put c did data w)) ! i) = status d)))"
proof -
  let ?d' = "put_fields c data d"
  let ?rows = "update_row did ?d' (documents w)"
  have res: "handle_document_put c did data w = (Updated, w\<lparr>documents := ?rows\<rparr>)"
    using found by (simp add: handle_document_put_def)
  have d: "d \<in> set (documents w)" "doc_id d = did"
    using query_first_Some[OF found] by auto
  have absent: "(p_title data = None \<longrightarrow> title ?d' = title d) \<and>
      (p_content data = None \<longrightarrow> content ?d' = content d) \<and>
      (p_status data = None \<longrightarrow> status ?d' = status d)"
    by (simp add: put_fields_def get_default_def)
  have row: "?rows ! i = documents w ! i \<or> (documents w ! i = d \<and> ?rows ! i = ?d')"
    if "i < length (documents w)" for i
    using update_row_nth[OF that, of did ?d'] primary_key[OF pk d(1) that] d(2) by auto
  have rows: "\<forall>i < length (documents w).
        ?rows ! i = documents w ! i \<or>
        (documents w ! i = d \<and>
         same_untouched_columns d (?rows ! i) \<and>
         (p_title data = None \<longrightarrow> title (?rows ! i) = title d) \<and>
         (p_content data = None \<longrightarrow> content (?rows ! i) = content d) \<and>
         (p_status data = None \<longrightarrow> status (?rows ! i) = status d))"
  proof (intro allI impI)
    fix i
    assume i: "i < length (documents w)"
    from row[OF i] show "?rows ! i = documents w ! i \<or>
        (documents w ! i = d \<and>
         same_untouched_columns d (?rows ! i) \<and>
         (p_title data = None \<longrightarrow> title (?rows ! i) = title d) \<and>
         (p_content data = None \<longrightarrow> content (?rows ! i) = content d) \<and>
         (p_status data = None \<longrightarrow> status (?rows ! i) = status d))"
    proof
      assume "?rows ! i = documents w ! i"
      then show ?thesis by simp
    next
      assume "documents w ! i = d \<and> ?rows ! i = ?d'"
      then show ?thesis using absent put_fields_untouched[of d c data] by simp
    qed
  qed
  show ?thesis
    unfolding res using rows by (simp add: update_row_length)
qed

text \<open>A \<open>PUT\<close> on \<open>d1\<close> that names a new title only.\<close>

theorem handle_document_put_frame_witness:
  "query_first ''d1'' (current_user_id ctx0) (documents world0) = Some doc0 \<and>
   distinct (map doc_id (documents world0)) \<and>
   fst (handle_document_put ctx0 ''d1''
     \<lparr>p_title = Some ''Titre'', p_content = None, p_status = None\<rparr> world0) = Updated \<and>
   documents (snd (handle_document_put ctx0 ''d1''
     \<lparr>p_title = Some ''Titre'', p_content = None, p_status = None\<rparr> world0)) =
     [doc0\<lparr>title := ''Titre'', updated_at := 0\<rparr>]"
proof -
  let ?data = "\<lparr>p_title = Some ''Titre'', p_content = None, p_status = None\<rparr>"
  have found: "query_first ''d1'' (current_user_id ctx0) (documents world0) = Some doc0"
    by code_simp
  have pk: "distinct (map doc_id (documents world0))"
    by code_simp
  have rows: "documents (snd (handle_document_put ctx0 ''d1'' ?data world0)) =
      [doc0\<lparr>title := ''Titre'', updated_at := 0\<rparr>]"
    by code_simp
  from handle_document_put_frame[OF found pk, of ?data] found pk rows
  show ?thesis by blast
qed

section \<open>The history table\<close>

text \<open>
  Claim C2, as the code has it. No endpoint inserts a \<open>CorrectionHistory\<close> row: a call to
  \<open>process_text\<close> (with or without a document identifier), a save, a creation and a
  \<open>PUT\<close> all leave the history table as it was.
\<close>

theorem correction_history_unchanged:
  "correction_history (snd (process_text e c data w)) = correction_history w \<and>
   correction_history (snd (save_document c sdata w)) = correction_history w \<and>
   correction_history (snd (handle_documents_post c cdata w)) = correction_history w \<and>
   correction_history (snd (handle_document_put c did pdata w)) = correction_history w"
  by (auto simp: process_text_def save_document_def handle_documents_post_def
        handle_document_put_def save_after_process_def Let_def
      split: option.splits sum.splits)

text \<open>
  A successful run on the owned document \<open>d1\<close>: the document is completed, and the
  history table is still empty.
\<close>

theorem process_text_inserts_no_history_counterexample:
  "fst (process_text (mock_env ''Bonjour'') ctx0
     \<lparr>d_texte = Some ''Bonjour'', d_agent = None, d_document_id = Some ''d1''\<rparr> world0) =
     Processed ''Bonjour'' ''jurifix'' 100 1 0 \<and>
   map status (documents (snd (process_text (mock_env ''Bonjour'') ctx0
     \<lparr>d_texte = Some ''Bonjour'', d_agent = None, d_document_id = Some ''d1''\<rparr> world0))) =
     [''completed''] \<and>
   length (correction_history (snd (process_text (mock_env ''Bonjour'') ctx0
     \<lparr>d_texte = Some ''Bonjour'', d_agent = None, d_document_id = Some ''d1''\<rparr> world0))) =
     length (correction_history world0) \<and>
   length (correction_history (snd (save_document ctx0
     \<lparr>s_id = Some ''d1'', s_title = None, s_content = Some ''Bonjour'',
      s_corrected_content = Some ''Bonjour'', s_agent = None\<rparr> world0))) =
     length (correction_history world0)"
  by code_simp

section \<open>Corrected content and status\<close>

text \<open>
  Claim C3, as the code has it. Creating a document through \<open>POST /api/documents\<close> and the
  update that \<open>process_text\<close> makes after a correction keep the invariant: if every stored
  document has a corrected content only when its status is \<open>completed\<close>, the same holds
  after the call. (A save and a \<open>PUT\<close> do not keep it.)
\<close>

theorem create_and_process_keep_invariant:
  assumes "list_all corrected_only_when_completed (documents w)"
  shows "list_all corrected_only_when_completed
           (documents (snd (handle_documents_post c cdata w))) \<and>
         list_all corrected_only_when_completed (documents (snd (process_text e c data w)))"
proof
  show "list_all corrected_only_when_completed
          (documents (snd (handle_documents_post c cdata w)))"
    using assms
    by (simp add: handle_documents_post_def Let_def new_document_def
          corrected_only_when_completed_def)
next
  have upd: "list_all corrected_only_when_completed (update_row did d' (documents w))"
    if "corrected_only_when_completed d'" for did d'
    using assms that update_row_set[of did d' "documents w"]
    by (auto simp: list_all_iff)
  have "list_all corrected_only_when_completed
          (documents (save_after_process c i t t' n k el (w\<lparr>completion_calls := cs\<rparr>)))"
    for i t t' n k el cs
    using assms upd
    by (auto simp: save_after_process_def corrected_only_when_completed_def
             split: option.splits)
  then show "list_all corrected_only_when_completed (documents (snd (process_text e c data w)))"
    using assms
    by (auto simp: process_text_def Let_def split: option.splits sum.splits)
qed

theorem create_and_process_keep_invariant_witness:
  "list_all corrected_only_when_completed (documents world0) \<and>
   list_all corrected_only_when_completed (documents (snd (handle_documents_post ctx0
     \<lparr>c_title = None, c_content = Some ''Bonjour'', c_agent = None\<rparr> world0))) \<and>
   list_all corrected_only_when_completed (documents (snd (process_text (mock_env ''Bonjour'')
     ctx0 \<lparr>d_texte = Some ''Bonjour'', d_agent = None, d_document_id = Some ''d1''\<rparr> world0)))"
proof -
  have pre: "list_all corrected_only_when_completed (documents world0)"
    by code_simp
  from create_and_process_keep_invariant[OF pre] pre show ?thesis by blast
qed

text \<open>
  A save without identifier stores a draft with a corrected content (the empty string when
  the body names none); a \<open>PUT\<close> can turn a completed document with its corrected content
  back into a draft.
\<close>

theorem save_document_breaks_invariant_counterexample:
  "list_all corrected_only_when_completed (documents world0) \<and>
   \<not> list_all corrected_only_when_completed (documents (snd (save_document ctx0
       \<lparr>s_id = None, s_title = None, s_content = Some ''Bonjour'',
        s_corrected_content = None, s_agent = None\<rparr> world0))) \<and>
   map (\<lambda>d. (corrected_content d, status d)) (documents (snd (save_document ctx0
       \<lparr>s_id = None, s_title = None, s_content = Some ''Bonjour'',
        s_corrected_content = None, s_agent = None\<rparr> world0))) =
     [(None, ''draft''), (Some [], ''draft'')] \<and>
   map (\<lambda>d. (corrected_content d, status d)) (documents (snd (handle_document_put ctx0 ''d1''
       \<lparr>p_title = None, p_content = None, p_status = Some ''draft''\<rparr>
       (snd (process_text (mock_env ''Bonjour'') ctx0
          \<lparr>d_texte = Some ''Bonjour'', d_agent = None, d_document_id = Some ''d1''\<rparr>
          world0))))) =
     [(Some ''Bonjour'', ''draft'')]"
  by code_simp

section \<open>Plain text and paragraphs\<close>

text \<open>
  Claim C6, as the code has it. For an input with neither \<open><p>\<close> nor \<open><div>\<close> the plain
  text is the input itself. Reassembly makes one paragraph element for each non-blank line
  of the text it is given, in order: for a text made of the lines \<open>ls\<close>, joined by
  newlines (every text is, by \<open>lines_of_text\<close>), the result is the paragraphs of the
  lines that hold a character other than whitespace.
\<close>

theorem extract_and_reassemble:
  "(\<not> is_html texte \<longrightarrow> extract_plain_text e texte = texte) \<and>
   (ls \<noteq> [] \<and> (\<forall>l \<in> set ls. newline \<notin> set l) \<longrightarrow>
      reconstituer_html (join newline ls) =
        concat (map p_element (filter (\<lambda>l. \<exists>c \<in> set l. \<not> isspace c) ls)))"
proof -
  have "(\<lambda>p. strip p \<noteq> []) = (\<lambda>l. \<exists>c \<in> set l. \<not> isspace c)"
    by (auto simp: strip_Nil_iff)
  then show ?thesis
    by (simp add: extract_plain_text_def reconstituer_html_def paragraphes_corriges_def
          split_sep_join)
qed

theorem extract_and_reassemble_witness:
  "\<not> is_html ''Bonjour'' \<and> extract_plain_text (mock_env []) ''Bonjour'' = ''Bonjour'' \<and>
   reconstituer_html (join newline [''a'', ''  '', ''b'']) = ''<p>a</p><p>b</p>''"
proof -
  have plain: "\<not> is_html ''Bonjour''"
    by code_simp
  have lines: "[''a'', ''  '', ''b''] \<noteq> [] \<and> (\<forall>l \<in> set [''a'', ''  '', ''b'']. newline \<notin> set l)"
    by code_simp
  have pars: "concat (map p_element
      (filter (\<lambda>l. \<exists>c \<in> set l. \<not> isspace c) [''a'', ''  '', ''b''])) = ''<p>a</p><p>b</p>''"
    by code_simp
  from extract_and_reassemble[of "''Bonjour''" "mock_env []" "[''a'', ''  '', ''b'']"]
    plain lines pars
  show ?thesis by simp
qed

text \<open>
  One paragraph with a line break: one block element in, two paragraph elements out, also
  through \<open>process_text\<close> when the service returns the text unchanged.
\<close>

theorem one_block_two_paragraphs_counterexample:
  "is_html ''<p>a<br>b</p>'' \<and>
   count_sub ''<p>'' ''<p>a<br>b</p>'' + count_sub ''<div>'' ''<p>a<br>b</p>'' = 1 \<and>
   extract_plain_text (mock_env []) ''<p>a<br>b</p>'' = ''a\<newline>b'' \<and>
   reconstituer_html (extract_plain_text (mock_env []) ''<p>a<br>b</p>'') = ''<p>a</p><p>b</p>'' \<and>
   count_sub ''<p>'' (reconstituer_html (extract_plain_text (mock_env []) ''<p>a<br>b</p>'')) = 2 \<and>
   fst (process_text (mock_env ''a\<newline>b'') ctx0
     \<lparr>d_texte = Some ''<p>a<br>b</p>'', d_agent = None, d_document_id = None\<rparr> world0) =
     Processed ''<p>a</p><p>b</p>'' ''jurifix'' 100 2 1"
  by code_simp

section \<open>The count of corrections\<close>

text \<open>
  Claim C1 at the input \<open><p>abc</p>\<close> with a service that returns \<open>abc\<close>: the
  plain text is \<open>abc\<close>, the corrected plain text is \<open>abc\<close>, and the call reports one
  correction, because the count compares the plain text with the text already wrapped in
  paragraph elements. The same text sent without markup reports none.
\<close>

theorem process_text_html_unchanged_reports_correction:
  "extract_plain_text (mock_env ''abc'') ''<p>abc</p>'' = ''abc'' \<and>
   nettoyer_guillemets ''abc'' = ''abc'' \<and>
   fst (process_text (mock_env ''abc'') ctx0
     \<lparr>d_texte = Some ''<p>abc</p>'', d_agent = None, d_document_id = None\<rparr> world0) =
     Processed ''<p>abc</p>'' ''jurifix'' 100 1 1 \<and>
   fst (process_text (mock_env ''abc'') ctx0
     \<lparr>d_texte = Some ''abc'', d_agent = None, d_document_id = None\<rparr> world0) =
     Processed ''abc'' ''jurifix'' 100 1 0"
  by code_simp

text \<open>A text that is not blank differs from its reassembly: the latter holds more \<open><\<close>.\<close>

lemma count_split_sep_acc:
  "c \<noteq> sep \<Longrightarrow>
   count_list (concat (split_sep_acc sep cur s)) c = count_list cur c + count_list s c"
  by (induction s arbitrary: cur) auto

lemma lt_not_space: "\<not> isspace (CHR ''<'')"
  by code_simp

lemma newline_space: "isspace newline"
  by code_simp

lemma count_blank: "strip l = [] \<Longrightarrow> count_list l (CHR ''<'') = 0"
  using lt_not_space by (auto simp: strip_Nil_iff count_list_0_iff)

lemma count_nonblank_lines:
  "count_list (concat (filter (\<lambda>p. strip p \<noteq> []) ls)) (CHR ''<'') =
   count_list (concat ls) (CHR ''<'')"
  by (induction ls) (auto simp: count_blank)

lemma count_p_elements:
  "count_list (concat (map p_element ps)) (CHR ''<'') =
   count_list (concat ps) (CHR ''<'') + 2 * length ps"
  by (induction ps) (auto simp: p_element_def)

lemma paragraphes_nonempty:
  assumes "strip t \<noteq> []"
  shows "paragraphes_corriges t \<noteq> []"
proof -
  from assms obtain x where x: "x \<in> set t" "\<not> isspace x"
    by (auto simp: strip_Nil_iff)
  then have "x \<noteq> newline" using newline_space by auto
  then have "count_list (concat (split_sep newline t)) x = count_list t x"
    using count_split_sep_acc[of x newline "[]" t] by (simp add: split_sep_def)
  with x(1) have "x \<in> set (concat (split_sep newline t))"
    by (metis count_list_0_iff)
  then obtain l where l: "l \<in> set (split_sep newline t)" "x \<in> set l" by auto
  with x(2) have "strip l \<noteq> []" by (auto simp: strip_Nil_iff)
  with l(1) have "l \<in> set (paragraphes_corriges t)"
    by (simp add: paragraphes_corriges_def)
  then show ?thesis by auto
qed

lemma reconstituer_html_differs:
  assumes "strip t \<noteq> []"
  shows "reconstituer_html t \<noteq> t"
proof -
  have nl: "CHR ''<'' \<noteq> newline" by code_simp
  have "count_list (reconstituer_html t) (CHR ''<'') =
        count_list t (CHR ''<'') + 2 * length (paragraphes_corriges t)"
    using count_split_sep_acc[OF nl, of "[]" t]
    by (simp add: reconstituer_html_def count_p_elements paragraphes_corriges_def
          count_nonblank_lines split_sep_def)
  moreover have "0 < length (paragraphes_corriges t)"
    using paragraphes_nonempty[OF assms] by simp
  ultimately have "count_list (reconstituer_html t) (CHR ''<'') \<noteq> count_list t (CHR ''<'')"
    by simp
  then show ?thesis by auto
qed

text \<open>
  The same for every input in HTML mode, every agent of the registry and every service: when
  the corrected plain text is the plain text itself, the call still reports at least one
  correction.
\<close>

lemma html_unchanged_counts_a_correction:
  assumes html: "is_html (get_default (d_texte data) [])"
      and known: "AGENTS (get_default (d_agent data) ''jurifix'') = Some a"
      and nonblank: "strip (extract_plain_text e (get_default (d_texte data) [])) \<noteq> []"
      and reply: "chat_completions_create e
          (build_request a (anonymiser_texte (extract_plain_text e (get_default (d_texte data) [])))) =
            Inr reply"
      and same: "nettoyer_guillemets reply = extract_plain_text e (get_default (d_texte data) [])"
  shows "\<exists>r ag el n k. fst (process_text e c data w) = Processed r ag el n k \<and> 1 \<le> k"
  using assms reconstituer_html_differs[OF nonblank]
  by (simp add: process_text_def Let_def compter_corrections_def)

section \<open>Redaction applied twice\<close>

lemma re_sub_from_no_match:
  "\<not> re_search_from ic r prev s \<Longrightarrow> re_sub_from ic r repl prev s = s"
proof (induction s arbitrary: prev)
  case Nil
  then have "match_at ic r (prev, []) = None"
    by (cases "match_at ic r (prev, [])") auto
  then show ?case by (subst re_sub_from.simps) simp
next
  case (Cons c cs)
  then have "match_at ic r (prev, c # cs) = None" and "\<not> re_search_from ic r (Some c) cs"
    by (cases "match_at ic r (prev, c # cs)", auto)
  with Cons.IH[of "Some c"] show ?case by (subst re_sub_from.simps) simp
qed

lemma re_sub_no_match: "\<not> re_search ic r s \<Longrightarrow> re_sub ic r repl s = s"
  unfolding re_search_def re_sub_def by (rule re_sub_from_no_match)

lemma not_matchable_fixed: "\<not> matchable y \<Longrightarrow> anonymiser_texte y = y"
  by (simp add: matchable_def rules_def anonymiser_texte_def sub_nom_def sub_email_def
        sub_telephone_def sub_iban_def re_sub_no_match)

lemma rep_avoids:
  "\<not> P c \<Longrightarrow> rep P lo hi (prev, s) k = Some res \<Longrightarrow>
   \<exists>mt prev' s'. s = mt @ s' \<and> c \<notin> set mt \<and> k (prev', s') = Some res"
proof (induction s arbitrary: prev lo hi)
  case Nil
  then show ?case by (auto split: if_splits)
next
  case (Cons x xs)
  show ?case
  proof (cases "P x \<and> hi \<noteq> Some 0")
    case True
    show ?thesis
    proof (cases "rep P (lo - 1) (map_option (\<lambda>h. h - 1) hi) (Some x, xs) k")
      case None
      with True Cons.prems(2) have "k (prev, x # xs) = Some res"
        by (auto split: if_splits)
      then show ?thesis by (metis append_Nil empty_iff list.set(1))
    next
      case (Some r)
      with True Cons.prems(2) have "r = res" by simp
      with Some Cons.IH[OF Cons.prems(1), of "lo - 1" "map_option (\<lambda>h. h - 1) hi" "Some x"]
      obtain mt prev' s' where "xs = mt @ s'" "c \<notin> set mt" "k (prev', s') = Some res"
        by blast
      moreover have "x \<noteq> c" using True Cons.prems(1) by auto
      ultimately show ?thesis
        by (metis append_Cons set_ConsD)
    qed
  next
    case False
    with Cons.prems(2) have "k (prev, x # xs) = Some res"
      by (auto split: if_splits)
    then show ?thesis by (metis append_Nil empty_iff list.set(1))
  qed
qed

lemma m_avoids:
  "avoids ic r c \<Longrightarrow> m ic r (prev, s) g k = Some res \<Longrightarrow>
   \<exists>mt prev' s' g'. s = mt @ s' \<and> c \<notin> set mt \<and> k (prev', s') g' = Some res"
proof (induction r arbitrary: prev s g k res)
  case Bnd
  then show ?case by (metis append_Nil empty_iff list.set(1) m.simps(1) option.distinct(1))
next
  case (Lit x)
  then obtain y ys where s: "s = y # ys" and y: "lit_eq ic x y" and k: "k (Some y, ys) g = Some res"
    by (cases s) (auto split: if_splits)
  from y Lit.prems(1) have "c \<notin> set [y]" by auto
  with s k show ?case by (metis append_Cons append_Nil)
next
  case (Cls P)
  then obtain y ys where s: "s = y # ys" and y: "in_cls ic P y" and k: "k (Some y, ys) g = Some res"
    by (cases s) (auto split: if_splits)
  from y Cls.prems(1) have "c \<notin> set [y]" by auto
  with s k show ?case by (metis append_Cons append_Nil)
next
  case (Rep lo hi P)
  then show ?case using rep_avoids[of "in_cls ic P" c lo hi prev s "\<lambda>p'. k p' g" res] by auto
next
  case (Cat a b)
  from Cat.prems have "m ic a (prev, s) g (\<lambda>p' g'. m ic b p' g' k) = Some res" by simp
  with Cat.IH(1)[of prev s g "\<lambda>p' g'. m ic b p' g' k" res] Cat.prems(1)
  obtain mt1 prev1 s1 g1 where 1: "s = mt1 @ s1" "c \<notin> set mt1" "m ic b (prev1, s1) g1 k = Some res"
    by auto
  with Cat.IH(2)[of prev1 s1 g1 k res] Cat.prems(1)
  obtain mt2 prev2 s2 g2 where 2: "s1 = mt2 @ s2" "c \<notin> set mt2" "k (prev2, s2) g2 = Some res"
    by auto
  from 1 2 have "s = (mt1 @ mt2) @ s2" "c \<notin> set (mt1 @ mt2)" by auto
  with 2(3) show ?case by blast
next
  case (Alt a b)
  then show ?case by (auto split: option.splits)
next
  case (Opt a)
  show ?case
  proof (cases "m ic a (prev, s) g k")
    case None
    with Opt.prems have "k (prev, s) g = Some res" by simp
    then show ?thesis by (metis append_Nil empty_iff list.set(1))
  next
    case (Some r)
    with Opt show ?thesis by auto
  qed
next
  case (Grp n a)
  from Grp.prems have "m ic a (prev, s) g
      (\<lambda>p' g'. k p' ((n, take (length s - length (snd p')) s) # g')) = Some res" by simp
  from Grp.IH[OF _ this] Grp.prems(1)
  obtain mt prev' s' g' where "s = mt @ s'" "c \<notin> set mt"
    "k (prev', s') ((n, take (length s - length (snd (prev', s'))) s) # g') = Some res"
    by auto
  then show ?case by blast
qed

lemma match_at_avoids:
  "avoids ic r c \<Longrightarrow> match_at ic r (prev, s) = Some ((prev', s'), g) \<Longrightarrow>
   \<exists>mt. s = mt @ s' \<and> c \<notin> set mt"
  using m_avoids[of ic r c prev s "[]" "\<lambda>p' g. Some (p', g)" "((prev', s'), g)"]
  by (auto simp: match_at_def)

lemma rules_avoid_brackets:
  "list_all (\<lambda>(ic, r). avoids ic r (CHR ''['') \<and> avoids ic r (CHR '']'')) rules"
  by code_simp

lemma tokens_fixed: "list_all (\<lambda>t. \<not> matchable t \<and> anonymiser_texte t = t) tokens"
  by code_simp

text \<open>
  Claim C7. When the output of a first pass holds no matchable pattern, a second pass
  returns it unchanged. None of the four tokens is matched by any rule, each is left as it
  is by a second pass, and no match of any rule, in any text, contains a bracket: a match
  can neither reach into a token nor out of one.
\<close>

theorem anonymiser_texte_idempotent_on_output:
  "(\<not> matchable (anonymiser_texte x) \<longrightarrow>
      anonymiser_texte (anonymiser_texte x) = anonymiser_texte x) \<and>
   list_all (\<lambda>t. \<not> matchable t \<and> anonymiser_texte t = t) tokens \<and>
   (\<forall>(ic, r) \<in> set rules. \<forall>prev s prev' s' g.
      match_at ic r (prev, s) = Some ((prev', s'), g) \<longrightarrow>
      (\<exists>mt. s = mt @ s' \<and> CHR ''['' \<notin> set mt \<and> CHR '']'' \<notin> set mt))"
proof (intro conjI)
  show "\<not> matchable (anonymiser_texte x) \<longrightarrow>
      anonymiser_texte (anonymiser_texte x) = anonymiser_texte x"
    by (simp add: not_matchable_fixed)
  show "list_all (\<lambda>t. \<not> matchable t \<and> anonymiser_texte t = t) tokens"
    by (rule tokens_fixed)
  show "\<forall>(ic, r) \<in> set rules. \<forall>prev s prev' s' g.
      match_at ic r (prev, s) = Some ((prev', s'), g) \<longrightarrow>
      (\<exists>mt. s = mt @ s' \<and> CHR ''['' \<notin> set mt \<and> CHR '']'' \<notin> set mt)"
  proof (intro ballI, clarify)
    fix ic r prev s prev' s' g
    assume r: "(ic, r) \<in> set rules" and mt: "match_at ic r (prev, s) = Some ((prev', s'), g)"
    from r rules_avoid_brackets have av: "avoids ic r (CHR ''['')" "avoids ic r (CHR '']'')"
      by (auto simp: list_all_iff)
    from match_at_avoids[OF av(1) mt] obtain m1 where m1: "s = m1 @ s'" "CHR ''['' \<notin> set m1"
      by blast
    from match_at_avoids[OF av(2) mt] obtain m2 where m2: "s = m2 @ s'" "CHR '']'' \<notin> set m2"
      by blast
    from m1(1) m2(1) have "m1 = m2" by simp
    with m1 m2 show "\<exists>mt. s = mt @ s' \<and> CHR ''['' \<notin> set mt \<and> CHR '']'' \<notin> set mt"
      by blast
  qed
qed

text \<open>A letter with a name, an address, a telephone number and an account number.\<close>

theorem anonymiser_texte_idempotent_on_output_witness:
  "(False, rx_email) \<in> set rules \<and>
   match_at False rx_email (None, ''a@b.fr]'') = Some ((Some (CHR ''r''), '']''), []) \<and>
   (\<exists>mt. ''a@b.fr]'' = mt @ '']'' \<and> CHR ''['' \<notin> set mt \<and> CHR '']'' \<notin> set mt) \<and>
   anonymiser_texte ''Madame Durand, jean.dupont@example.fr, 0612345678, FR76 3000 6000'' =
     ''Madame [nom], [email], '' @ tok_telephone @ '', [IBAN]'' \<and>
   \<not> matchable
     (anonymiser_texte ''Madame Durand, jean.dupont@example.fr, 0612345678, FR76 3000 6000'') \<and>
   anonymiser_texte
     (anonymiser_texte ''Madame Durand, jean.dupont@example.fr, 0612345678, FR76 3000 6000'') =
   anonymiser_texte ''Madame Durand, jean.dupont@example.fr, 0612345678, FR76 3000 6000''"
proof -
  let ?x = "''Madame Durand, jean.dupont@example.fr, 0612345678, FR76 3000 6000''"
  have out: "anonymiser_texte ?x = ''Madame [nom], [email], '' @ tok_telephone @ '', [IBAN]''"
    by code_simp
  have clean: "\<not> matchable (anonymiser_texte ?x)"
    by code_simp
  have rule: "(False, rx_email) \<in> set rules"
    by (simp add: rules_def)
  have mt: "match_at False rx_email (None, ''a@b.fr]'') = Some ((Some (CHR ''r''), '']''), [])"
    by code_simp
  note inst = anonymiser_texte_idempotent_on_output[of ?x]
  from inst rule mt
  have "\<exists>mt. ''a@b.fr]'' = mt @ '']'' \<and> CHR ''['' \<notin> set mt \<and> CHR '']'' \<notin> set mt"
    by blast
  with inst out clean rule mt show ?thesis by blast
qed

section \<open>The name rule\<close>

subsection \<open>Where a match ends\<close>

lemma rep_all:
  "\<forall>c \<in> set xs. P c \<Longrightarrow> lo \<le> length xs \<Longrightarrow> rest = [] \<or> \<not> P (hd rest) \<Longrightarrow>
   k (end_prev prev xs, rest) = Some r \<Longrightarrow> rep P lo None (prev, xs @ rest) k = Some r"
proof (induction xs arbitrary: prev lo)
  case Nil
  then show ?case by (cases rest) (auto simp: end_prev_def)
next
  case (Cons x xs)
  have "k (end_prev (Some x) xs, rest) = Some r"
    using Cons.prems(4) by (auto simp: end_prev_def)
  with Cons.IH[of "lo - 1" "Some x"] Cons.prems
  have "rep P (lo - 1) None (Some x, xs @ rest) k = Some r" by auto
  with Cons.prems(1) show ?case by simp
qed

lemma end_prev_append: "end_prev (end_prev prev xs) ys = end_prev prev (xs @ ys)"
  by (simp add: end_prev_def)


lemma rep_position:
  "rep P lo hi (prev, s) k = Some res \<Longrightarrow>
   \<exists>mt s'. s = mt @ s' \<and> k (end_prev prev mt, s') = Some res"
proof (induction s arbitrary: prev lo hi)
  case Nil
  then show ?case by (auto simp: end_prev_def split: if_splits)
next
  case (Cons x xs)
  show ?case
  proof (cases "rep P (lo - 1) (map_option (\<lambda>h. h - 1) hi) (Some x, xs) k = Some res")
    case True
    from Cons.IH[OF True] obtain mt s' where
      "xs = mt @ s'" "k (end_prev (Some x) mt, s') = Some res" by blast
    then have "x # xs = (x # mt) @ s'" "k (end_prev prev (x # mt), s') = Some res"
      by (auto simp: end_prev_def split: if_splits)
    then show ?thesis by blast
  next
    case False
    with Cons.prems have "k (prev, x # xs) = Some res"
      by (auto split: if_splits option.splits)
    then have "x # xs = [] @ x # xs" "k (end_prev prev [], x # xs) = Some res"
      by (simp_all add: end_prev_def)
    then show ?thesis by blast
  qed
qed

lemma m_position:
  "m ic r (prev, s) g k = Some res \<Longrightarrow>
   \<exists>mt s' g'. s = mt @ s' \<and> k (end_prev prev mt, s') g' = Some res"
proof (induction r arbitrary: prev s g k res)
  case Bnd
  then have "k (prev, s) g = Some res" by (auto split: if_splits)
  then have "s = [] @ s" "k (end_prev prev [], s) g = Some res" by (simp_all add: end_prev_def)
  then show ?case by blast
next
  case (Lit x)
  then obtain y ys where s: "s = y # ys" and k: "k (Some y, ys) g = Some res"
    by (cases s) (auto split: if_splits)
  then have "s = [y] @ ys" "k (end_prev prev [y], ys) g = Some res" by (simp_all add: end_prev_def)
  then show ?case by blast
next
  case (Cls P)
  then obtain y ys where s: "s = y # ys" and k: "k (Some y, ys) g = Some res"
    by (cases s) (auto split: if_splits)
  then have "s = [y] @ ys" "k (end_prev prev [y], ys) g = Some res" by (simp_all add: end_prev_def)
  then show ?case by blast
next
  case (Rep lo hi P)
  then show ?case using rep_position[of "in_cls ic P" lo hi prev s "\<lambda>p'. k p' g" res] by auto
next
  case (Cat a b)
  from Cat.prems have "m ic a (prev, s) g (\<lambda>p' g'. m ic b p' g' k) = Some res" by simp
  from Cat.IH(1)[OF this]
  obtain mt1 s1 g1 where 1: "s = mt1 @ s1" "m ic b (end_prev prev mt1, s1) g1 k = Some res"
    by blast
  from Cat.IH(2)[OF 1(2)]
  obtain mt2 s2 g2 where 2: "s1 = mt2 @ s2" "k (end_prev (end_prev prev mt1) mt2, s2) g2 = Some res"
    by blast
  from 1 2 have "s = (mt1 @ mt2) @ s2" "k (end_prev prev (mt1 @ mt2), s2) g2 = Some res"
    by (simp_all add: end_prev_append)
  then show ?case by blast
next
  case (Alt a b)
  then show ?case by (auto split: option.splits)
next
  case (Opt a)
  show ?case
  proof (cases "m ic a (prev, s) g k")
    case None
    with Opt.prems have "k (prev, s) g = Some res" by simp
    then have "s = [] @ s" "k (end_prev prev [], s) g = Some res" by (simp_all add: end_prev_def)
    then show ?thesis by blast
  next
    case (Some r)
    with Opt show ?thesis by auto
  qed
next
  case (Grp n a)
  from Grp.prems have "m ic a (prev, s) g
      (\<lambda>p' g'. k p' ((n, take (length s - length (snd p')) s) # g')) = Some res" by simp
  from Grp.IH[OF this]
  obtain mt s' g' where "s = mt @ s'"
    "k (end_prev prev mt, s') ((n, take (length s - length (snd (end_prev prev mt, s'))) s) # g') = Some res"
    by blast
  then show ?case by blast
qed

lemma match_at_position:
  "match_at ic r (prev, s) = Some ((prev', s'), g) \<Longrightarrow>
   \<exists>mt. s = mt @ s' \<and> prev' = end_prev prev mt"
  using m_position[of ic r prev s "[]" "\<lambda>p' g. Some (p', g)" "((prev', s'), g)"]
  by (auto simp: match_at_def)

lemma re_sub_from_copy:
  "match_at ic r (prev, c # cs) = None \<Longrightarrow>
   re_sub_from ic r repl prev (c # cs) = c # re_sub_from ic r repl (Some c) cs"
  by (subst re_sub_from.simps) simp

lemma re_sub_from_replace:
  "match_at ic r (prev, s) = Some ((prev', s'), g) \<Longrightarrow> length s' < length s \<Longrightarrow>
   re_sub_from ic r repl prev s = repl g @ re_sub_from ic r repl prev' s'"
  by (subst re_sub_from.simps) simp

lemma no_match_before_copy:
  "no_match_before ic r prev pre rest \<Longrightarrow>
   re_sub_from ic r repl prev (pre @ rest) =
     pre @ re_sub_from ic r repl (end_prev prev pre) rest"
proof (induction pre arbitrary: prev)
  case Nil
  then show ?case by (simp add: end_prev_def)
next
  case (Cons c cs)
  then have none: "match_at ic r (prev, c # cs @ rest) = None"
    and nb: "no_match_before ic r (Some c) cs rest" by simp_all
  have "re_sub_from ic r repl prev ((c # cs) @ rest) =
        c # re_sub_from ic r repl (Some c) (cs @ rest)"
    using re_sub_from_copy[OF none] by simp
  also have "\<dots> = c # cs @ re_sub_from ic r repl (end_prev (Some c) cs) rest"
    using Cons.IH[OF nb] by simp
  finally show ?case by (simp add: end_prev_def)
qed

lemma scan_before_sub:
  "scan_before ic r repl prev pre rest = Some out \<Longrightarrow>
   re_sub_from ic r repl prev (pre @ rest) =
     out @ re_sub_from ic r repl (end_prev prev pre) rest"
proof (induction ic r repl prev pre rest arbitrary: out rule: scan_before.induct)
  case (1 ic r repl prev rest)
  then show ?case by (simp add: end_prev_def)
next
  case (2 ic r repl prev c cs rest)
  show ?case
  proof (cases "match_at ic r (prev, c # cs @ rest)")
    case None
    with "2.prems" obtain out1 where o: "scan_before ic r repl (Some c) cs rest = Some out1"
      "out = c # out1" by auto
    from "2.IH"(1)[OF None o(1)] re_sub_from_copy[OF None, of repl] o(2)
    show ?thesis by (simp add: end_prev_def)
  next
    case (Some a)
    then obtain prev' rest' g where a: "a = ((prev', rest'), g)" by (cases a) auto
    with Some have mt: "match_at ic r (prev, c # cs @ rest) = Some ((prev', rest'), g)" by simp
    from "2.prems" mt have len: "\<not> length rest' < length rest"
      by (auto split: if_splits)
    from match_at_position[OF mt] obtain w where
      w: "c # cs @ rest = w @ rest'" "prev' = end_prev prev w" by blast
    show ?thesis
    proof (cases "length rest' < length (c # cs @ rest)")
      case False
      with "2.prems" mt len obtain out1 where
        o: "scan_before ic r repl (Some c) cs rest = Some out1" "out = repl g @ c # out1"
        by auto
      have "re_sub_from ic r repl prev (c # cs @ rest) =
            repl g @ c # re_sub_from ic r repl (Some c) (cs @ rest)"
        using mt False by (subst re_sub_from.simps) simp
      with "2.IH"(3)[OF mt refl refl len False o(1)] o(2)
      show ?thesis by (simp add: end_prev_def)
    next
      case True
      let ?pre2 = "take (length rest' - length rest) rest'"
      from "2.prems" mt len True obtain out2 where
        o: "scan_before ic r repl prev' ?pre2 rest = Some out2" "out = repl g @ out2"
        by auto
      from w(1) have e: "(c # cs) @ rest = w @ rest'" by simp
      from len have "length w \<le> length (c # cs)"
        using arg_cong[OF e, of length] by simp
      with e obtain q where q: "c # cs = w @ q"
        by (metis append_eq_append_conv_if append_take_drop_id)
      with e have r': "rest' = q @ rest" by simp
      then have pre2: "?pre2 = q" by simp
      have "end_prev prev' q = end_prev prev (c # cs)"
        using w(2) q by (simp add: end_prev_append)
      moreover have "re_sub_from ic r repl prev (c # cs @ rest) =
          repl g @ re_sub_from ic r repl prev' rest'"
        using re_sub_from_replace[OF mt True] by simp
      ultimately show ?thesis
        using "2.IH"(2)[OF mt refl refl len True o(1)] o(2) pre2 r' by simp
    qed
  qed
qed

lemma no_match_before_scan:
  "no_match_before ic r prev pre rest \<Longrightarrow> scan_before ic r repl prev pre rest = Some pre"
  by (induction pre arbitrary: prev) auto

subsection \<open>What follows a bracket has no influence\<close>

lemma rep_local:
  assumes np: "\<not> P c"
      and k: "\<And>q ys. rel_option Q (k1 (q, ys @ c # z1)) (k2 (q, ys @ c # z2))"
  shows "rel_option Q (rep P lo hi (prev, xs @ c # z1) k1) (rep P lo hi (prev, xs @ c # z2) k2)"
proof (induction xs arbitrary: prev lo hi)
  case Nil
  show ?case using np k[of prev "[]"] by simp
next
  case (Cons x xs)
  note ih = Cons.IH[of "lo - 1" "map_option (\<lambda>h. h - 1) hi" "Some x"]
  note kx = k[of prev "x # xs"]
  show ?case
  proof (cases "P x \<and> hi \<noteq> Some 0")
    case True
    show ?thesis
    proof (cases "rep P (lo - 1) (map_option (\<lambda>h. h - 1) hi) (Some x, xs @ c # z1) k1")
      case None
      with ih have "rep P (lo - 1) (map_option (\<lambda>h. h - 1) hi) (Some x, xs @ c # z2) k2 = None"
        by (cases "rep P (lo - 1) (map_option (\<lambda>h. h - 1) hi) (Some x, xs @ c # z2) k2") simp_all
      with None True kx show ?thesis by simp
    next
      case (Some a)
      with ih obtain b where
        "rep P (lo - 1) (map_option (\<lambda>h. h - 1) hi) (Some x, xs @ c # z2) k2 = Some b" "Q a b"
        by (cases "rep P (lo - 1) (map_option (\<lambda>h. h - 1) hi) (Some x, xs @ c # z2) k2") simp_all
      with Some True show ?thesis by simp
    qed
  next
    case False
    with kx show ?thesis by auto
  qed
qed

lemma rel_option_case:
  assumes "rel_option Q x y" and "rel_option Q x' y'"
  shows "rel_option Q (case x of Some r \<Rightarrow> Some r | None \<Rightarrow> x') (case y of Some r \<Rightarrow> Some r | None \<Rightarrow> y')"
  using assms by (cases x; cases y) simp_all

lemma m_local:
  assumes av: "avoids ic r c"
      and k: "\<And>q ys g'. rel_option Q (k1 (q, ys @ c # z1) g') (k2 (q, ys @ c # z2) g')"
  shows "rel_option Q (m ic r (prev, xs @ c # z1) g k1) (m ic r (prev, xs @ c # z2) g k2)"
  using av k
proof (induction r arbitrary: prev xs g k1 k2)
  case Bnd
  have "at_boundary (prev, xs @ c # z1) = at_boundary (prev, xs @ c # z2)"
    by (cases xs) (simp_all add: at_boundary_def)
  with Bnd.prems(2)[of prev xs g] show ?case by simp
next
  case (Lit x)
  show ?case
  proof (cases xs)
    case Nil
    with Lit.prems(1) show ?thesis by simp
  next
    case (Cons y ys)
    with Lit.prems(2)[of "Some y" ys g] show ?thesis by simp
  qed
next
  case (Cls P)
  show ?case
  proof (cases xs)
    case Nil
    with Cls.prems(1) show ?thesis by simp
  next
    case (Cons y ys)
    with Cls.prems(2)[of "Some y" ys g] show ?thesis by simp
  qed
next
  case (Rep lo hi P)
  from Rep.prems(1) have np: "\<not> in_cls ic P c" by simp
  have "rel_option Q (rep (in_cls ic P) lo hi (prev, xs @ c # z1) (\<lambda>p'. k1 p' g))
          (rep (in_cls ic P) lo hi (prev, xs @ c # z2) (\<lambda>p'. k2 p' g))"
  proof (rule rep_local[where P = "in_cls ic P" and ?k1.0 = "\<lambda>p'. k1 p' g"
        and ?k2.0 = "\<lambda>p'. k2 p' g"])
    show "\<not> in_cls ic P c" by (rule np)
    show "rel_option Q (k1 (q, ys @ c # z1) g) (k2 (q, ys @ c # z2) g)" for q ys
      by (rule Rep.prems(2))
  qed
  then show ?case by simp
next
  case (Cat a b)
  from Cat.prems(1) have av: "avoids ic a c" "avoids ic b c" by simp_all
  have inner: "rel_option Q (m ic b (q, ys @ c # z1) g' k1) (m ic b (q, ys @ c # z2) g' k2)"
    for q ys g'
  proof (rule Cat.IH(2)[where ?k1.0 = k1 and ?k2.0 = k2])
    show "avoids ic b c" by (rule av(2))
    show "rel_option Q (k1 (q, ys @ c # z1) g') (k2 (q, ys @ c # z2) g')" for q ys g'
      by (rule Cat.prems(2))
  qed
  have "rel_option Q (m ic a (prev, xs @ c # z1) g (\<lambda>p' g'. m ic b p' g' k1))
        (m ic a (prev, xs @ c # z2) g (\<lambda>p' g'. m ic b p' g' k2))"
  proof (rule Cat.IH(1)[where ?k1.0 = "\<lambda>p' g'. m ic b p' g' k1" and ?k2.0 = "\<lambda>p' g'. m ic b p' g' k2"])
    show "avoids ic a c" by (rule av(1))
    show "rel_option Q (m ic b (q, ys @ c # z1) g' k1) (m ic b (q, ys @ c # z2) g' k2)"
      for q ys g' by (rule inner)
  qed
  then show ?case by simp
next
  case (Alt a b)
  from Alt.prems(1) have av: "avoids ic a c" "avoids ic b c" by simp_all
  have A: "rel_option Q (m ic a (prev, xs @ c # z1) g k1) (m ic a (prev, xs @ c # z2) g k2)"
  proof (rule Alt.IH(1)[where ?k1.0 = k1 and ?k2.0 = k2])
    show "avoids ic a c" by (rule av(1))
    show "rel_option Q (k1 (q, ys @ c # z1) g') (k2 (q, ys @ c # z2) g')" for q ys g'
      by (rule Alt.prems(2))
  qed
  have B: "rel_option Q (m ic b (prev, xs @ c # z1) g k1) (m ic b (prev, xs @ c # z2) g k2)"
  proof (rule Alt.IH(2)[where ?k1.0 = k1 and ?k2.0 = k2])
    show "avoids ic b c" by (rule av(2))
    show "rel_option Q (k1 (q, ys @ c # z1) g') (k2 (q, ys @ c # z2) g')" for q ys g'
      by (rule Alt.prems(2))
  qed
  show ?case using rel_option_case[OF A B] by simp
next
  case (Opt a)
  from Opt.prems(1) have av: "avoids ic a c" by simp
  have A: "rel_option Q (m ic a (prev, xs @ c # z1) g k1) (m ic a (prev, xs @ c # z2) g k2)"
  proof (rule Opt.IH[where ?k1.0 = k1 and ?k2.0 = k2])
    show "avoids ic a c" by (rule av)
    show "rel_option Q (k1 (q, ys @ c # z1) g') (k2 (q, ys @ c # z2) g')" for q ys g'
      by (rule Opt.prems(2))
  qed
  show ?case using rel_option_case[OF A Opt.prems(2)[of prev xs g]] by simp
next
  case (Grp n a)
  from Grp.prems(1) have av: "avoids ic a c" by simp
  define k1' where "k1' = (\<lambda>p' g'. k1 p' ((n, take (length (xs @ c # z1) - length (snd p')) (xs @ c # z1)) # g'))"
  define k2' where "k2' = (\<lambda>p' g'. k2 p' ((n, take (length (xs @ c # z2) - length (snd p')) (xs @ c # z2)) # g'))"
  have "rel_option Q (m ic a (prev, xs @ c # z1) g k1') (m ic a (prev, xs @ c # z2) g k2')"
  proof (rule Grp.IH[where ?k1.0 = k1' and ?k2.0 = k2'])
    show "avoids ic a c" by (rule av)
    show "rel_option Q (k1' (q, ys @ c # z1) g') (k2' (q, ys @ c # z2) g')" for q ys g'
      using Grp.prems(2)[of q ys "(n, take (length xs - length ys) xs) # g'"]
      by (simp add: k1'_def k2'_def)
  qed
  then show ?case by (simp add: k1'_def k2'_def)
qed

lemma match_at_local:
  assumes "avoids ic r c"
  shows "rel_option (\<lambda>(p1, g1) (p2, g2). g1 = g2 \<and> fst p1 = fst p2 \<and>
            (\<exists>ys. snd p1 = ys @ c # z1 \<and> snd p2 = ys @ c # z2))
           (match_at ic r (prev, xs @ c # z1)) (match_at ic r (prev, xs @ c # z2))"
  unfolding match_at_def by (rule m_local[OF assms]) simp

lemma scan_before_local:
  assumes av: "avoids ic r c"
  shows "scan_before ic r repl prev pre (ys @ c # z1) = scan_before ic r repl prev pre (ys @ c # z2)"
proof (induction "length pre" arbitrary: prev pre rule: less_induct)
  case less
  show ?case
  proof (cases pre)
    case Nil
    then show ?thesis by simp
  next
    case (Cons x xs)
    have ih: "scan_before ic r repl (Some x) xs (ys @ c # z1) =
              scan_before ic r repl (Some x) xs (ys @ c # z2)"
      using less[of xs "Some x"] Cons by simp
    note loc = match_at_local[OF av, of z1 z2 prev "x # xs @ ys"]
    show ?thesis
    proof (cases "match_at ic r (prev, x # xs @ ys @ c # z1)")
      case None
      with loc have "match_at ic r (prev, x # xs @ ys @ c # z2) = None"
        by (cases "match_at ic r (prev, x # xs @ ys @ c # z2)") simp_all
      with None ih Cons show ?thesis by simp
    next
      case (Some a)
      with loc obtain b where b: "match_at ic r (prev, x # xs @ ys @ c # z2) = Some b"
        and rel: "(\<lambda>(p1, g1) (p2, g2). g1 = g2 \<and> fst p1 = fst p2 \<and>
            (\<exists>ys. snd p1 = ys @ c # z1 \<and> snd p2 = ys @ c # z2)) a b"
        by (cases "match_at ic r (prev, x # xs @ ys @ c # z2)") simp_all
      from rel obtain q g w where a: "a = ((q, w @ c # z1), g)" and b': "b = ((q, w @ c # z2), g)"
        by (cases a; cases b) auto
      have tk: "take (length (w @ c # z1) - length (ys @ c # z1)) (w @ c # z1) = take (length w - length ys) w"
        "take (length (w @ c # z2) - length (ys @ c # z2)) (w @ c # z2) = take (length w - length ys) w"
        by simp_all
      show ?thesis
      proof (cases "length w < length ys")
        case True
        with Some b a b' Cons show ?thesis by simp
      next
        case ge: False
        show ?thesis
        proof (cases "length w < length (x # xs @ ys)")
          case False
          with ge Some b a b' Cons ih show ?thesis by simp
        next
          case True
          then have "length (take (length w - length ys) w) < length pre"
            using Cons by simp
          from less[OF this, of q]
          have "scan_before ic r repl q (take (length w - length ys) w) (ys @ c # z1) =
                scan_before ic r repl q (take (length w - length ys) w) (ys @ c # z2)" .
          with True ge Some b a b' Cons tk show ?thesis by simp
        qed
      qed
    qed
  qed
qed

subsection \<open>The later rules on an honorific and its token\<close>

lemma block_no_email:
  "h \<in> set honorifics \<Longrightarrow> no_match_before False rx_email prev (h @ '' '' @ tok_nom) q"
  by (auto simp: honorifics_def tok_nom_def match_at_def rx_email_def at_boundary_def
        lit_eq_def in_cls_def alnum_ascii_def in_range_def isword_def isalnum_def code_def
        split: option.splits)

lemma block_no_telephone:
  "h \<in> set honorifics \<Longrightarrow> no_match_before False rx_telephone prev (h @ '' '' @ tok_nom) q"
  by (auto simp: honorifics_def tok_nom_def match_at_def rx_telephone_def at_boundary_def
        lit_eq_def in_cls_def in_range_def isword_def isalnum_def code_def
        split: option.splits)

lemma block_no_iban:
  "h \<in> set honorifics \<Longrightarrow> no_match_before False rx_iban prev (h @ '' '' @ tok_nom) q"
  by (auto simp: honorifics_def tok_nom_def match_at_def rx_iban_def at_boundary_def
        lit_eq_def in_cls_def in_range_def isword_def isalnum_def code_def
        split: option.splits)

lemma block_no_match:
  assumes h: "h \<in> set honorifics" and r: "(ic, r, tok) \<in> set later_rules"
  shows "no_match_before ic r prev (h @ '' '' @ tok_nom) q"
  using r block_no_email[OF h] block_no_telephone[OF h] block_no_iban[OF h]
  by (auto simp: later_rules_def)

lemma block_copy:
  assumes h: "h \<in> set honorifics" and r: "(ic, r, tok) \<in> set later_rules"
  shows "re_sub_from ic r repl prev (h @ '' '' @ tok_nom @ q) =
           h @ '' '' @ tok_nom @ re_sub_from ic r repl (Some (CHR '']'')) q"
proof -
  have e: "end_prev prev (h @ '' '' @ tok_nom) = Some (CHR '']'')"
    by (simp add: end_prev_def tok_nom_def)
  from no_match_before_copy[OF block_no_match[OF h r], of repl prev q] e
  show ?thesis by simp
qed

lemma later_rules_avoid:
  "(ic, r, tok) \<in> set later_rules \<Longrightarrow> avoids ic r (CHR ''['')"
  using rules_avoid_brackets by (auto simp: later_rules_def rules_def)

lemma later_rule_stage:
  assumes h: "h \<in> set honorifics" and r: "(ic, r, tok) \<in> set later_rules"
      and sc: "scan_before ic r repl None p (h @ '' ['') = Some p'"
  shows "re_sub ic r repl (p @ h @ '' '' @ tok_nom @ q) =
           p' @ h @ '' '' @ tok_nom @ re_sub_from ic r repl (Some (CHR '']'')) q"
proof -
  from scan_before_local[OF later_rules_avoid[OF r], of repl None p "h @ '' ''" "[]" "''nom]'' @ q"] sc
  have "scan_before ic r repl None p (h @ '' '' @ tok_nom @ q) = Some p'"
    by (simp add: tok_nom_def)
  from scan_before_sub[OF this]
  show ?thesis by (simp only: re_sub_def block_copy[OF h r])
qed

subsection \<open>Letters and whitespace\<close>

lemma code_char_of: "k < 256 \<Longrightarrow> code (char_of k) = k"
  by (simp add: code_def)

lemma code_lt: "code c < 256"
  by (simp add: code_def)

lemma in_range_code: "in_range lo hi c = (code lo \<le> code c \<and> code c \<le> code hi)"
  by (simp add: in_range_def)

lemma name_letter_code:
  assumes "name_letter l"
  shows "(97 \<le> code l \<and> code l \<le> 122) \<or> (224 \<le> code l \<and> code l \<le> 252 \<and> code l \<noteq> 247)"
proof (cases "in_range (CHR ''a'') (CHR ''z'') l")
  case True
  then show ?thesis by (simp add: in_range_def code_def)
next
  case False
  with assms have "l \<in> set [CHR 0xE9, CHR 0xE8, CHR 0xEA, CHR 0xEB, CHR 0xE0, CHR 0xE2, CHR 0xE4,
                CHR 0xF4, CHR 0xF6, CHR 0xFB, CHR 0xFC, CHR 0xE7]"
    by (simp only: name_letter_def) blast
  then have "code l \<in> set [233, 232, 234, 235, 224, 226, 228, 244, 246, 251, 252, 231]"
    by (auto simp: code_def)
  then show ?thesis by auto
qed

lemma lower_code:
  "code (lower c) = (if (65 \<le> code c \<and> code c \<le> 90) \<or> (192 \<le> code c \<and> code c \<le> 222 \<and> code c \<noteq> 215)
                     then code c + 32 else code c)"
  using code_lt[of c] by (simp add: lower_def Let_def code_char_of)

lemma upper_code:
  "code (upper c) = (if (97 \<le> code c \<and> code c \<le> 122) \<or> (224 \<le> code c \<and> code c \<le> 254 \<and> code c \<noteq> 247)
                     then code c - 32 else code c)"
  using code_lt[of c] by (simp add: upper_def Let_def code_char_of)

lemma isspace_code:
  "isspace c = ((9 \<le> code c \<and> code c \<le> 13) \<or> (28 \<le> code c \<and> code c \<le> 32) \<or> code c = 133 \<or> code c = 160)"
  by (simp add: isspace_def Let_def)

lemma in_cls_space: "in_cls True isspace c = isspace c"
  by (simp add: in_cls_def isspace_code lower_code upper_code) arith

lemma first_letter_code:
  "first_letter c = ((65 \<le> code c \<and> code c \<le> 90) \<or> (97 \<le> code c \<and> code c \<le> 122))"
proof -
  have A: "code (CHR ''A'') = 65" "code (CHR ''Z'') = 90" by (simp_all add: code_def)
  show ?thesis
    by (simp add: first_letter_def in_cls_def in_range_code A lower_code upper_code) arith
qed

lemma next_letter_code:
  assumes "next_letter c"
  shows "(65 \<le> code c \<and> code c \<le> 122) \<or> 192 \<le> code c"
proof -
  from assms have "name_letter (lower c) \<or> name_letter (upper c)"
    by (simp add: next_letter_def in_cls_def)
  then show ?thesis
  proof
    assume "name_letter (lower c)"
    from name_letter_code[OF this] show ?thesis
      by (auto simp: lower_code split: if_splits)
  next
    assume "name_letter (upper c)"
    from name_letter_code[OF this] show ?thesis
      by (auto simp: upper_code split: if_splits)
  qed
qed

lemma space_not_letter:
  assumes "isspace c"
  shows "\<not> first_letter c" "\<not> next_letter c"
proof -
  from assms show "\<not> first_letter c"
    by (simp add: first_letter_code isspace_code) arith
  from assms next_letter_code[of c] show "\<not> next_letter c"
    by (auto simp: isspace_code)
qed

subsection \<open>The match at an honorific\<close>

lemma honorific_alt:
  "h \<in> set honorifics \<Longrightarrow>
   m True (Grp 1 (alts (map lits honorifics))) (prev, h @ rest) g k =
     k (Some (last h), rest) ((1, h) # g)"
  by (auto simp: honorifics_def lit_eq_def lower_def code_def split: option.splits)

lemma honorific_first:
  "h \<in> set honorifics \<Longrightarrow> \<exists>t. h = CHR ''M'' # t"
  by (auto simp: honorifics_def)

lemma rep_none:
  assumes "\<And>a b. s = a @ b \<Longrightarrow> list_all P a \<Longrightarrow> lo \<le> length a \<Longrightarrow> k (end_prev prev a, b) = None"
  shows "rep P lo None (prev, s) k = None"
  using assms
proof (induction s arbitrary: prev lo)
  case Nil
  from Nil[of "[]" "[]"] show ?case by (simp add: end_prev_def)
next
  case (Cons x xs)
  have here: "lo = 0 \<Longrightarrow> k (prev, x # xs) = None"
    using Cons.prems[of "[]" "x # xs"] by (simp add: end_prev_def)
  show ?case
  proof (cases "P x")
    case True
    have "rep P (lo - 1) None (Some x, xs) k = None"
    proof (rule Cons.IH)
      fix a b
      assume "xs = a @ b" "list_all P a" "lo - 1 \<le> length a"
      with True Cons.prems[of "x # a" b]
      have "k (end_prev prev (x # a), b) = None" by simp
      then show "k (end_prev (Some x) a, b) = None"
        by (auto simp: end_prev_def split: if_splits)
    qed
    with True here show ?thesis by simp
  next
    case False
    with here show ?thesis by simp
  qed
qed

lemma cap_word_match:
  assumes w: "name_word w" and rest: "rest = [] \<or> \<not> next_letter (hd rest)"
      and k: "k (Some (last w), rest) g = Some r"
  shows "m True cap_word (prev, w @ rest) g k = Some r"
proof -
  from w obtain c l ls where wd: "w = c # l # ls"
    and c: "first_letter c" and l: "next_letter l" and ls: "list_all next_letter ls"
    by (auto simp: name_word_def split: list.splits)
  have "rep (in_cls True name_letter) 1 None (Some c, (l # ls) @ rest) (\<lambda>p'. k p' g) = Some r"
  proof (rule rep_all)
    show "\<forall>x \<in> set (l # ls). in_cls True name_letter x"
      using l ls by (simp add: next_letter_def list_all_iff)
    show "1 \<le> length (l # ls)" by simp
    show "rest = [] \<or> \<not> in_cls True name_letter (hd rest)"
      using rest by (simp add: next_letter_def)
    show "k (end_prev (Some c) (l # ls), rest) g = Some r"
      using k wd by (simp add: end_prev_def)
  qed
  with c show ?thesis by (simp add: cap_word_def wd first_letter_def)
qed

lemma cap_word_none:
  "\<not> starts_word s \<Longrightarrow> m True cap_word (prev, s) g k = None"
  by (auto simp: starts_word_def cap_word_def first_letter_def next_letter_def
        split: list.splits)

lemma name_word_facts:
  assumes "name_word w"
  shows "w \<noteq> []" "first_letter (hd w)" "\<not> isspace (hd w)"
proof -
  from assms show "w \<noteq> []" "first_letter (hd w)"
    by (auto simp: name_word_def split: list.splits)
  with space_not_letter(1)[of "hd w"] show "\<not> isspace (hd w)" by blast
qed

lemma second_word_none:
  assumes "\<not> second_word_follows post"
  shows "rep (in_cls True isspace) 1 None (prev, post) (\<lambda>p'. m True cap_word p' g k) = None"
proof (rule rep_none)
  fix a b
  assume ab: "post = a @ b" and a: "list_all (in_cls True isspace) a" and len: "1 \<le> length a"
  from a have sa: "list_all isspace a" by (simp add: in_cls_space list_all_iff)
  from len obtain x xs where ax: "a = x # xs" by (cases a) auto
  with sa ab have p: "post \<noteq> []" "isspace (hd post)" by simp_all
  have "\<not> starts_word b"
  proof (cases b)
    case Nil
    then show ?thesis by (simp add: starts_word_def)
  next
    case (Cons y ys)
    show ?thesis
    proof (cases "isspace y")
      case True
      with space_not_letter(1)[of y] Cons show ?thesis
        by (simp add: starts_word_def split: list.splits)
    next
      case False
      with sa ab Cons have "dropWhile isspace post = b"
        by (simp add: list_all_iff dropWhile_append)
      with assms p show ?thesis by (simp add: second_word_follows_def)
    qed
  qed
  then show "m True cap_word (end_prev prev a, b) g k = None" by (rule cap_word_none)
qed

lemma two_words_split:
  assumes "two_words nm"
  obtains w1 ws w2 where "nm = w1 @ ws @ w2" "name_word w1" "ws \<noteq> []" "list_all isspace ws"
    "name_word w2"
proof -
  let ?w1 = "takeWhile (\<lambda>c. \<not> isspace c) nm"
  let ?r = "dropWhile (\<lambda>c. \<not> isspace c) nm"
  let ?ws = "takeWhile isspace ?r"
  let ?w2 = "dropWhile isspace ?r"
  from assms have w1: "name_word ?w1" and r: "?r \<noteq> []" and w2: "name_word ?w2"
    by (simp_all add: two_words_def Let_def)
  have "nm = ?w1 @ ?ws @ ?w2" by simp
  moreover from r have "isspace (hd ?r)" using hd_dropWhile[of "\<lambda>c. \<not> isspace c" nm] by simp
  with r have "?ws \<noteq> []" by (cases ?r) auto
  moreover have "list_all isspace ?ws"
    by (auto simp: list_all_iff dest: set_takeWhileD)
  ultimately show ?thesis using w1 w2 that by blast
qed

lemma name_part_portion:
  assumes np: "name_portion nm post"
  shows "m True (Grp 2 (Cat cap_word (Opt (Cat (Rep 1 None isspace) cap_word))))
       (prev, nm @ post) g (\<lambda>p' g'. Some (p', g')) = Some ((Some (last nm), post), (2, nm) # g)"
proof -
  let ?O = "Opt (Cat (Rep 1 None isspace) cap_word)"
  let ?res = "((Some (last nm), post), (2, nm) # g)"
  define K2 :: "pos \<Rightarrow> groups \<Rightarrow> (pos \<times> groups) option"
    where "K2 = (\<lambda>p' g'. Some (p', (2, take (length (nm @ post) - length (snd p')) (nm @ post)) # g'))"
  from np have ends: "post = [] \<or> \<not> next_letter (hd post)"
    by (simp add: name_portion_def name_ends_def)
  have fin: "K2 (Some (last nm), post) g = Some ?res" by (simp add: K2_def)
  from np consider (two) "two_words nm" | (one) "name_word nm" "\<not> second_word_follows post"
    by (auto simp: name_portion_def)
  then have "m True (Cat cap_word ?O) (prev, nm @ post) g K2 = Some ?res"
  proof cases
    case one
    have "m True ?O (Some (last nm), post) g K2 = Some ?res"
      using second_word_none[OF one(2), of "Some (last nm)" g K2] fin by simp
    from cap_word_match[OF one(1) ends, of "\<lambda>p' g'. m True ?O p' g' K2" g ?res prev, OF this]
    show ?thesis by simp
  next
    case two
    from two_words_split[OF two] obtain w1 ws w2 where
      nm: "nm = w1 @ ws @ w2" and w1: "name_word w1" and ws: "ws \<noteq> []" "list_all isspace ws"
      and w2: "name_word w2" by blast
    from name_word_facts[OF w2] nm have last: "last nm = last w2" by simp
    have second: "m True cap_word (end_prev (Some (last w1)) ws, w2 @ post) g K2 = Some ?res"
      using cap_word_match[OF w2 ends, of K2 g ?res] fin last by simp
    have "rep (in_cls True isspace) 1 None (Some (last w1), ws @ (w2 @ post))
            (\<lambda>p'. m True cap_word p' g K2) = Some ?res"
    proof (rule rep_all)
      show "\<forall>c \<in> set ws. in_cls True isspace c" using ws(2) by (simp add: in_cls_space list_all_iff)
      show "1 \<le> length ws" using ws(1) by (cases ws) auto
      show "w2 @ post = [] \<or> \<not> in_cls True isspace (hd (w2 @ post))"
        using name_word_facts[OF w2] by (simp add: in_cls_space)
      show "m True cap_word (end_prev (Some (last w1)) ws, w2 @ post) g K2 = Some ?res"
        by (rule second)
    qed
    then have opt: "m True ?O (Some (last w1), ws @ w2 @ post) g K2 = Some ?res" by simp
    have stop: "ws @ w2 @ post = [] \<or> \<not> next_letter (hd (ws @ w2 @ post))"
      using ws space_not_letter(2)[of "hd ws"] by (cases ws) auto
    from cap_word_match[OF w1 stop, of "\<lambda>p' g'. m True ?O p' g' K2" g ?res prev, OF opt]
    show ?thesis by (simp add: nm)
  qed
  then show ?thesis by (simp add: K2_def)
qed

lemma name_portion_first:
  assumes "name_portion nm post"
  shows "nm \<noteq> []" "\<not> isspace (hd nm)"
proof -
  from assms consider (two) "two_words nm" | (one) "name_word nm"
    by (auto simp: name_portion_def)
  then have "nm \<noteq> [] \<and> \<not> isspace (hd nm)"
  proof cases
    case one
    with name_word_facts[OF one] show ?thesis by simp
  next
    case two
    from two_words_split[OF two] obtain w1 ws w2 where
      nm: "nm = w1 @ ws @ w2" and w1: "name_word w1" by blast
    with name_word_facts[OF w1] show ?thesis by simp
  qed
  then show "nm \<noteq> []" "\<not> isspace (hd nm)" by simp_all
qed

lemma match_honorific_portion:
  assumes h: "h \<in> set honorifics"
      and b: "prev = None \<or> (\<exists>c. prev = Some c \<and> \<not> isword c)"
      and sp: "blank sp"
      and np: "name_portion nm post"
  shows "match_at True rx_nom (prev, h @ sp @ nm @ post) =
           Some ((Some (last nm), post), [(2, nm), (1, h)])"
proof -
  let ?NP = "Grp 2 (Cat cap_word (Opt (Cat (Rep 1 None isspace) cap_word)))"
  let ?K0 = "\<lambda>p' g'. Some (p', g') :: (pos \<times> groups) option"
  let ?res = "((Some (last nm), post), [(2, nm), (1, h)])"
  note part = name_part_portion[OF np, of "end_prev (Some (last h)) sp" "[(1, h)]"]
  have ws: "rep (in_cls True isspace) 1 None (Some (last h), sp @ (nm @ post))
              (\<lambda>p'. m True ?NP p' [(1, h)] ?K0) = Some ?res"
  proof (rule rep_all)
    show "\<forall>c \<in> set sp. in_cls True isspace c"
      using sp by (simp add: blank_def in_cls_space list_all_iff)
    show "1 \<le> length sp" using sp by (cases sp) (auto simp: blank_def)
    show "nm @ post = [] \<or> \<not> in_cls True isspace (hd (nm @ post))"
      using name_portion_first[OF np] by (simp add: in_cls_space)
    show "m True ?NP (end_prev (Some (last h)) sp, nm @ post) [(1, h)] ?K0 = Some ?res"
      by (rule part)
  qed
  from honorific_first[OF h] obtain t where t: "h = CHR ''M'' # t" by blast
  have wM: "isword (CHR ''M'')" by code_simp
  have bd: "at_boundary (prev, h @ sp @ nm @ post)"
    using b t wM by (auto simp: at_boundary_def)
  have "match_at True rx_nom (prev, h @ sp @ nm @ post) =
        m True (Grp 1 (alts (map lits honorifics))) (prev, h @ (sp @ nm @ post)) []
          (\<lambda>p' g'. m True (Cat (Rep 1 None isspace) ?NP) p' g' ?K0)"
    using bd by (simp only: match_at_def rx_nom_def cats.simps m.simps(1) m.simps(5) if_True)
  also have "\<dots> = m True (Cat (Rep 1 None isspace) ?NP) (Some (last h), sp @ nm @ post) [(1, h)] ?K0"
    by (simp only: honorific_alt[OF h])
  also have "\<dots> = Some ?res"
    using ws by (simp only: m.simps(4) m.simps(5))
  finally show ?thesis .
qed

lemma name_rule_at_honorific:
  assumes h: "h \<in> set honorifics"
      and b: "pre = [] \<or> \<not> isword (last pre)"
      and sp: "blank sp"
      and np: "name_portion nm post"
  shows "re_sub_from True rx_nom (\<lambda>g. group 1 g @ '' '' @ tok_nom) (end_prev None pre)
           (h @ sp @ nm @ post) =
         h @ '' '' @ tok_nom @
           re_sub_from True rx_nom (\<lambda>g. group 1 g @ '' '' @ tok_nom) (Some (last nm)) post"
proof -
  have b': "end_prev None pre = None \<or> (\<exists>c. end_prev None pre = Some c \<and> \<not> isword c)"
    using b by (auto simp: end_prev_def)
  note mt = match_honorific_portion[OF h b' sp np]
  from honorific_first[OF h] have "length post < length (h @ sp @ nm @ post)" by auto
  from re_sub_from_replace[OF mt this, of "\<lambda>g. group 1 g @ '' '' @ tok_nom"]
  show ?thesis by simp
qed

lemma while_run:
  assumes "\<forall>x \<in> set a. P x" "b \<noteq> []" "\<not> P (hd b)"
  shows "takeWhile P (a @ b @ c) = a" "dropWhile P (a @ b @ c) = b @ c"
  using assms by (induction a) (cases b; simp)+

lemma name_portion_exists:
  assumes c: "first_letter c" and l: "next_letter l"
  shows "\<exists>nm post. c # l # s = nm @ post \<and> name_portion nm post"
proof -
  let ?w1 = "c # l # takeWhile next_letter s"
  let ?r1 = "dropWhile next_letter s"
  have w1: "name_word ?w1"
    using c l by (auto simp: name_word_def list_all_iff dest: set_takeWhileD)
  have e1: "name_ends ?r1"
    using hd_dropWhile[of next_letter s] by (auto simp: name_ends_def)
  show ?thesis
  proof (cases "second_word_follows ?r1")
    case False
    with w1 e1 have "name_portion ?w1 ?r1" by (simp add: name_portion_def)
    moreover have "c # l # s = ?w1 @ ?r1" by simp
    ultimately show ?thesis by blast
  next
    case True
    let ?ws = "takeWhile isspace ?r1"
    let ?r2 = "dropWhile isspace ?r1"
    from True have r1: "?r1 \<noteq> []" "isspace (hd ?r1)" and sw: "starts_word ?r2"
      by (simp_all add: second_word_follows_def)
    from sw obtain c2 l2 t where r2: "?r2 = c2 # l2 # t" and c2: "first_letter c2"
      and l2: "next_letter l2"
      by (auto simp: starts_word_def split: list.splits)
    let ?w2 = "c2 # l2 # takeWhile next_letter t"
    let ?post = "dropWhile next_letter t"
    let ?nm = "?w1 @ ?ws @ ?w2"
    have w2: "name_word ?w2"
      using c2 l2 by (auto simp: name_word_def list_all_iff dest: set_takeWhileD)
    have ws: "?ws \<noteq> []" "isspace (hd ?ws)" using r1 by (cases ?r1; simp)+
    have nosp: "\<forall>x \<in> set ?w1. \<not> isspace x"
      using c l space_not_letter by (auto dest: set_takeWhileD)
    have tw: "takeWhile (\<lambda>c. \<not> isspace c) ?nm = ?w1"
      using while_run(1)[of ?w1 "\<lambda>c. \<not> isspace c" ?ws ?w2] nosp ws by blast
    have dw: "dropWhile (\<lambda>c. \<not> isspace c) ?nm = ?ws @ ?w2"
      using while_run(2)[of ?w1 "\<lambda>c. \<not> isspace c" ?ws ?w2] nosp ws by blast
    have "\<not> isspace c2" using c2 space_not_letter(1) by blast
    then have dw2: "dropWhile isspace (?ws @ ?w2) = ?w2"
      by (simp add: dropWhile_append) (auto dest: set_takeWhileD)
    have "two_words ?nm"
      unfolding two_words_def Let_def tw dw dw2 using w1 w2 ws by simp
    moreover have "name_ends ?post"
      using hd_dropWhile[of next_letter t] by (auto simp: name_ends_def)
    ultimately have "name_portion ?nm ?post" by (simp add: name_portion_def)
    moreover have "c # l # s = ?nm @ ?post"
    proof -
      have "?r1 = ?ws @ ?r2" by simp
      then have "?r1 = ?ws @ ?w2 @ ?post" using r2 by simp
      moreover have "s = takeWhile next_letter s @ ?r1" by simp
      ultimately show ?thesis by (metis append.assoc append_Cons)
    qed
    ultimately show ?thesis by blast
  qed
qed

text \<open>
  Claim C5, as the code has it. The token is \<open>[nom]\<close>. Take a text in which, after
  \<open>pre\<close>, an honorific of the pattern stands at a word boundary, followed by whitespace
  \<open>sp\<close>, by the name portion \<open>nm\<close> (one or two name words) and then by \<open>post\<close>. By
  \<open>name_portion_exists\<close> every text that goes on, after the whitespace, with a letter and a
  letter of the name class splits into such a name portion and a rest.

  Let \<open>p1\<close> be what the name rule makes of \<open>pre\<close>, no match that starts in \<open>pre\<close>
  reaching into the honorific (by \<open>no_match_before_scan\<close> it is \<open>pre\<close> itself when no
  match starts there). Then the name rule gives \<open>p1\<close>, the honorific, one space,
  \<open>[nom]\<close>, and its own result on \<open>post\<close>: the honorific is kept, the whitespace and the
  whole name portion are replaced.

  Let \<open>p2\<close>, \<open>p3\<close> and \<open>p4\<close> be what the address rule, the telephone rule and the account
  rule in turn make of the text before the honorific, again with no match that starts there
  reaching into the honorific. (These rules read that text followed by the honorific, a space
  and the bracket that opens the token; no match contains a bracket, so what comes after it
  has no influence.) Then the whole redaction is \<open>p4\<close>, the honorific, one space,
  \<open>[nom]\<close>, and the redaction of \<open>post\<close>.
\<close>

theorem anonymiser_texte_honorific_name:
  assumes h: "h \<in> set honorifics"
      and b: "pre = [] \<or> \<not> isword (last pre)"
      and sp: "blank sp"
      and np: "name_portion nm post"
      and s1: "scan_before True rx_nom (\<lambda>g. group 1 g @ '' '' @ tok_nom) None pre
                 (h @ sp @ nm @ post) = Some p1"
  shows "sub_nom (pre @ h @ sp @ nm @ post) =
           p1 @ h @ '' '' @ tok_nom @
             re_sub_from True rx_nom (\<lambda>g. group 1 g @ '' '' @ tok_nom) (Some (last nm)) post \<and>
         (scan_before False rx_email (\<lambda>g. tok_email) None p1 (h @ '' ['') = Some p2 \<and>
          scan_before False rx_telephone (\<lambda>g. tok_telephone) None p2 (h @ '' ['') = Some p3 \<and>
          scan_before False rx_iban (\<lambda>g. tok_iban) None p3 (h @ '' ['') = Some p4 \<longrightarrow>
          anonymiser_texte (pre @ h @ sp @ nm @ post) =
            p4 @ h @ '' '' @ tok_nom @ redact_after (Some (last nm)) post)"
proof (intro conjI impI)
  let ?repl = "\<lambda>g. group 1 g @ '' '' @ tok_nom"
  let ?q1 = "re_sub_from True rx_nom ?repl (Some (last nm)) post"
  have "sub_nom (pre @ h @ sp @ nm @ post) =
          p1 @ re_sub_from True rx_nom ?repl (end_prev None pre) (h @ sp @ nm @ post)"
    unfolding sub_nom_def re_sub_def by (rule scan_before_sub[OF s1])
  then show n: "sub_nom (pre @ h @ sp @ nm @ post) = p1 @ h @ '' '' @ tok_nom @ ?q1"
    by (simp only: name_rule_at_honorific[OF h b sp np])
  assume later: "scan_before False rx_email (\<lambda>g. tok_email) None p1 (h @ '' ['') = Some p2 \<and>
          scan_before False rx_telephone (\<lambda>g. tok_telephone) None p2 (h @ '' ['') = Some p3 \<and>
          scan_before False rx_iban (\<lambda>g. tok_iban) None p3 (h @ '' ['') = Some p4"
  have e: "(False, rx_email, tok_email) \<in> set later_rules"
    and t: "(False, rx_telephone, tok_telephone) \<in> set later_rules"
    and i: "(False, rx_iban, tok_iban) \<in> set later_rules"
    by (simp_all add: later_rules_def)
  from later have s2: "scan_before False rx_email (\<lambda>g. tok_email) None p1 (h @ '' ['') = Some p2"
    and s3: "scan_before False rx_telephone (\<lambda>g. tok_telephone) None p2 (h @ '' ['') = Some p3"
    and s4: "scan_before False rx_iban (\<lambda>g. tok_iban) None p3 (h @ '' ['') = Some p4"
    by simp_all
  show "anonymiser_texte (pre @ h @ sp @ nm @ post) =
            p4 @ h @ '' '' @ tok_nom @ redact_after (Some (last nm)) post"
    unfolding anonymiser_texte_def n sub_email_def sub_telephone_def sub_iban_def redact_after_def
    by (simp only: later_rule_stage[OF h e s2] later_rule_stage[OF h t s3]
          later_rule_stage[OF h i s4])
qed

text \<open>
  Three texts: a name in a sentence, where the pattern, ignoring case, takes the following
  word \<open>viendra\<close> as a second name word; a name of two words; and a name that follows
  another name and an address, which the rules replace before they reach the honorific.
\<close>

theorem anonymiser_texte_honorific_name_witness:
  "''Madame'' \<in> set honorifics \<and> blank '' '' \<and>
   name_portion ''Durand viendra'' ''.'' \<and>
   scan_before True rx_nom (\<lambda>g. group 1 g @ '' '' @ tok_nom) None ''Comme convenu, ''
     ''Madame Durand viendra.'' = Some ''Comme convenu, '' \<and>
   sub_nom ''Comme convenu, Madame Durand viendra.'' = ''Comme convenu, Madame [nom].'' \<and>
   anonymiser_texte ''Comme convenu, Madame Durand viendra.'' = ''Comme convenu, Madame [nom].'' \<and>
   name_portion ''Marie Durand'' [] \<and>
   anonymiser_texte ''Madame Marie Durand'' = ''Madame [nom]'' \<and>
   name_portion ''Durand'' '', 0612345678'' \<and>
   scan_before True rx_nom (\<lambda>g. group 1 g @ '' '' @ tok_nom) None ''M. Dupont (a@b.fr), ''
     ''Madame Durand, 0612345678'' = Some ''M. [nom] (a@b.fr), '' \<and>
   scan_before False rx_email (\<lambda>g. tok_email) None ''M. [nom] (a@b.fr), '' ''Madame ['' =
     Some ''M. [nom] ([email]), '' \<and>
   anonymiser_texte ''M. Dupont (a@b.fr), Madame Durand, 0612345678'' =
     ''M. [nom] ([email]), Madame [nom], '' @ tok_telephone"
proof -
  let ?repl = "\<lambda>g. group 1 g @ '' '' @ tok_nom"
  have h: "''Madame'' \<in> set honorifics" by (simp add: honorifics_def)
  have sp: "blank '' ''" by code_simp
  have b1: "''Comme convenu, '' = [] \<or> \<not> isword (last ''Comme convenu, '')" by code_simp
  have n1: "name_portion ''Durand viendra'' ''.''" by code_simp
  have a1: "scan_before True rx_nom ?repl None ''Comme convenu, ''
      (''Madame'' @ '' '' @ ''Durand viendra'' @ ''.'') = Some ''Comme convenu, ''" by code_simp
  have a2: "scan_before False rx_email (\<lambda>g. tok_email) None ''Comme convenu, ''
      (''Madame'' @ '' ['') = Some ''Comme convenu, ''" by code_simp
  have a3: "scan_before False rx_telephone (\<lambda>g. tok_telephone) None ''Comme convenu, ''
      (''Madame'' @ '' ['') = Some ''Comme convenu, ''" by code_simp
  have a4: "scan_before False rx_iban (\<lambda>g. tok_iban) None ''Comme convenu, ''
      (''Madame'' @ '' ['') = Some ''Comme convenu, ''" by code_simp
  have t1: "''Comme convenu, '' @ ''Madame'' @ '' '' @ ''Durand viendra'' @ ''.'' =
      ''Comme convenu, Madame Durand viendra.''" by simp
  have r1: "''Comme convenu, '' @ ''Madame'' @ '' '' @ tok_nom @
      re_sub_from True rx_nom ?repl (Some (last ''Durand viendra'')) ''.'' =
      ''Comme convenu, Madame [nom].''" by code_simp
  have r1': "''Comme convenu, '' @ ''Madame'' @ '' '' @ tok_nom @
      redact_after (Some (last ''Durand viendra'')) ''.'' = ''Comme convenu, Madame [nom].''"
    by code_simp
  note i1 = anonymiser_texte_honorific_name[OF h b1 sp n1 a1,
      of "''Comme convenu, ''" "''Comme convenu, ''" "''Comme convenu, ''"]
  from i1 have c1: "sub_nom ''Comme convenu, Madame Durand viendra.'' = ''Comme convenu, Madame [nom].''"
    unfolding t1 r1 by (rule conjunct1)
  from i1 a2 a3 a4
  have "anonymiser_texte (''Comme convenu, '' @ ''Madame'' @ '' '' @ ''Durand viendra'' @ ''.'') =
      ''Comme convenu, '' @ ''Madame'' @ '' '' @ tok_nom @
      redact_after (Some (last ''Durand viendra'')) ''.''" by blast
  then have d1: "anonymiser_texte ''Comme convenu, Madame Durand viendra.'' =
      ''Comme convenu, Madame [nom].''" unfolding t1 r1' .
  have b2: "([] :: string) = [] \<or> \<not> isword (last [])" by simp
  have n2: "name_portion ''Marie Durand'' []" by code_simp
  have e1: "scan_before True rx_nom ?repl None [] (''Madame'' @ '' '' @ ''Marie Durand'' @ []) = Some []"
    by simp
  have e2: "scan_before False rx_email (\<lambda>g. tok_email) None [] (''Madame'' @ '' ['') = Some []"
    "scan_before False rx_telephone (\<lambda>g. tok_telephone) None [] (''Madame'' @ '' ['') = Some []"
    "scan_before False rx_iban (\<lambda>g. tok_iban) None [] (''Madame'' @ '' ['') = Some []"
    by simp_all
  have t2: "[] @ ''Madame'' @ '' '' @ ''Marie Durand'' @ [] = ''Madame Marie Durand''" by simp
  have r2: "[] @ ''Madame'' @ '' '' @ tok_nom @ redact_after (Some (last ''Marie Durand'')) [] =
      ''Madame [nom]''" by code_simp
  note i2 = anonymiser_texte_honorific_name[OF h b2 sp n2 e1, of "[]" "[]" "[]"]
  from i2 e2
  have "anonymiser_texte ([] @ ''Madame'' @ '' '' @ ''Marie Durand'' @ []) =
      [] @ ''Madame'' @ '' '' @ tok_nom @ redact_after (Some (last ''Marie Durand'')) []" by blast
  then have d2: "anonymiser_texte ''Madame Marie Durand'' = ''Madame [nom]''" unfolding t2 r2 .
  have b3: "''M. Dupont (a@b.fr), '' = [] \<or> \<not> isword (last ''M. Dupont (a@b.fr), '')"
    by code_simp
  have n3: "name_portion ''Durand'' '', 0612345678''" by code_simp
  have f1: "scan_before True rx_nom ?repl None ''M. Dupont (a@b.fr), ''
      (''Madame'' @ '' '' @ ''Durand'' @ '', 0612345678'') = Some ''M. [nom] (a@b.fr), ''"
    by code_simp
  have f2: "scan_before False rx_email (\<lambda>g. tok_email) None ''M. [nom] (a@b.fr), ''
      (''Madame'' @ '' ['') = Some ''M. [nom] ([email]), ''" by code_simp
  have f3: "scan_before False rx_telephone (\<lambda>g. tok_telephone) None ''M. [nom] ([email]), ''
      (''Madame'' @ '' ['') = Some ''M. [nom] ([email]), ''" by code_simp
  have f4: "scan_before False rx_iban (\<lambda>g. tok_iban) None ''M. [nom] ([email]), ''
      (''Madame'' @ '' ['') = Some ''M. [nom] ([email]), ''" by code_simp
  have t3: "''M. Dupont (a@b.fr), '' @ ''Madame'' @ '' '' @ ''Durand'' @ '', 0612345678'' =
      ''M. Dupont (a@b.fr), Madame Durand, 0612345678''" by simp
  have r3: "''M. [nom] ([email]), '' @ ''Madame'' @ '' '' @ tok_nom @
      redact_after (Some (last ''Durand'')) '', 0612345678'' =
      ''M. [nom] ([email]), Madame [nom], '' @ tok_telephone" by code_simp
  note i3 = anonymiser_texte_honorific_name[OF h b3 sp n3 f1,
      of "''M. [nom] ([email]), ''" "''M. [nom] ([email]), ''" "''M. [nom] ([email]), ''"]
  from i3 f2 f3 f4
  have "anonymiser_texte (''M. Dupont (a@b.fr), '' @ ''Madame'' @ '' '' @ ''Durand'' @ '', 0612345678'') =
      ''M. [nom] ([email]), '' @ ''Madame'' @ '' '' @ tok_nom @
      redact_after (Some (last ''Durand'')) '', 0612345678''" by blast
  then have d3: "anonymiser_texte ''M. Dupont (a@b.fr), Madame Durand, 0612345678'' =
      ''M. [nom] ([email]), Madame [nom], '' @ tok_telephone" unfolding t3 r3 .
  from a1 have a1': "scan_before True rx_nom ?repl None ''Comme convenu, ''
     ''Madame Durand viendra.'' = Some ''Comme convenu, ''" by simp
  from f1 have f1': "scan_before True rx_nom ?repl None ''M. Dupont (a@b.fr), ''
     ''Madame Durand, 0612345678'' = Some ''M. [nom] (a@b.fr), ''" by simp
  from f2 have f2': "scan_before False rx_email (\<lambda>g. tok_email) None ''M. [nom] (a@b.fr), ''
     ''Madame ['' = Some ''M. [nom] ([email]), ''" by simp
  from h sp n1 a1' c1 d1 n2 d2 n3 f1' f2' d3 show ?thesis by blast
qed

text \<open>
  The text \<open>Madame Durand\<close> gives \<open>Madame [nom]\<close>, which does not contain
  \<open>Madame [name]\<close>. After a letter the honorific is not at a word boundary and nothing is
  replaced. After \<open>Mr\<close> the honorific is itself taken as the name of \<open>Mr\<close>: a match of the
  name rule that starts before it reaches into it. After \<open>FR76\<close> the account rule takes
  the honorific away: its match starts before the honorific and reaches into it.
\<close>

theorem token_name_counterexample:
  "str_in ''Madame Durand'' ''Madame Durand'' \<and>
   anonymiser_texte ''Madame Durand'' = ''Madame [nom]'' \<and>
   \<not> str_in ''Madame [name]'' (anonymiser_texte ''Madame Durand'') \<and>
   str_in ''Madame Durand'' ''xMadame Durand'' \<and>
   anonymiser_texte ''xMadame Durand'' = ''xMadame Durand'' \<and>
   str_in ''Madame Durand'' ''Mr Madame Durand'' \<and>
   anonymiser_texte ''Mr Madame Durand'' = ''Mr [nom]'' \<and>
   scan_before True rx_nom (\<lambda>g. group 1 g @ '' '' @ tok_nom) None ''Mr '' ''Madame Durand'' = None \<and>
   str_in ''Madame Durand'' ''FR76 Madame Durand'' \<and>
   anonymiser_texte ''FR76 Madame Durand'' = ''[IBAN] [nom]'' \<and>
   scan_before False rx_iban (\<lambda>g. tok_iban) None ''FR76 '' ''Madame ['' = None"
  by code_simp

end
